theory Spec2Isabelle
  imports Main "HOL-Library.Sublist"
begin

section \<open>Python values and the command channel\<close>

text \<open>
  The cliconf plugin \<^verbatim>\<open>plugins/cliconf/ios.py\<close> talks to the device through
  \<^verbatim>\<open>self.send_command\<close>. Strings are character lists; Python integers are \<^typ>\<open>int\<close>.
  Exceptions are values of the type \<open>error\<close>; a function that may raise returns
  \<open>error + 'a\<close> with \<open>Inl\<close> for the exception.

  \<^verbatim>\<open>AnsibleConnectionFailure\<close> carries the optional attribute \<^verbatim>\<open>err\<close> that
  \<^verbatim>\<open>run_commands\<close> reads with \<^verbatim>\<open>getattr(e, "err", to_text(e))\<close>, and its message text.
\<close>

datatype error =
    ValueError string
  | IndexError string
  | KeyError string
  | TypeError string
  | AnsibleConnectionFailure "string option" string

text \<open>
  A command is either a plain string or a mapping of keyword arguments for
  \<^verbatim>\<open>send_command\<close> (\<^verbatim>\<open>command\<close>, \<^verbatim>\<open>prompt\<close>, \<^verbatim>\<open>answer\<close>, ...). A mapping is an
  association list; its values are kept as strings, and a value is truthy when it is not
  empty.
\<close>

type_synonym kwargs = "(string \<times> string) list"

datatype line = Str string | Mapping kwargs

text \<open>
  The channel answers a request with a response text or raises. It is deterministic in the
  requests sent so far, which are the only state of a session: \<open>channel\<close> maps the history
  and the request to the outcome, and \<open>send_command\<close> appends the request to the history.
\<close>

type_synonym history = "kwargs list"

type_synonym channel = "history \<Rightarrow> kwargs \<Rightarrow> error + string"

definition send_command :: "channel \<Rightarrow> kwargs \<Rightarrow> history \<Rightarrow> (error + string) \<times> history" where
  "send_command ch req h = (ch h req, h @ [req])"

definition cmd :: "string \<Rightarrow> kwargs" where
  "cmd s = [(''command'', s)]"

text \<open>The commands of a history, in the order sent.\<close>

definition commands_of :: "history \<Rightarrow> string option list" where
  "commands_of h = map (\<lambda>r. map_of r ''command'') h"

subsection \<open>Strings\<close>

definition newline :: char where
  "newline = CHR 0x0A"

text \<open>\<^verbatim>\<open>str(n)\<close> for an integer.\<close>

definition digit_char :: "nat \<Rightarrow> char" where
  "digit_char d = (''0123456789'' ! d)"

fun str_nat :: "nat \<Rightarrow> string" where
  "str_nat n = (if n < 10 then [digit_char n] else str_nat (n div 10) @ [digit_char (n mod 10)])"

declare str_nat.simps [simp del]

definition str_int :: "int \<Rightarrow> string" where
  "str_int i = (if i < 0 then CHR ''-'' # str_nat (nat (- i)) else str_nat (nat i))"

text \<open>\<^verbatim>\<open>p in s\<close> for strings: \<open>p\<close> occurs in \<open>s\<close>.\<close>

fun contains :: "string \<Rightarrow> string \<Rightarrow> bool" where
  "contains [] p = (p = [])"
| "contains (c # cs) p = (prefix p (c # cs) \<or> contains cs p)"

section \<open>Entering configuration mode\<close>

text \<open>
  \<^verbatim>\<open>re.search(r"Archive.*not.enabled", archive_state)\<close>, without flags: \<^verbatim>\<open>.\<close> matches any
  character but the newline. \<open>match_not_enabled\<close> is the tail \<^verbatim>\<open>.*not.enabled\<close> of the
  pattern, tried at the start of its argument.
\<close>

fun match_not_enabled :: "string \<Rightarrow> bool" where
  "match_not_enabled [] = False"
| "match_not_enabled (c # cs) =
     ((prefix ''not'' (c # cs) \<and>
        (case drop 3 (c # cs) of [] \<Rightarrow> False | d # ds \<Rightarrow> d \<noteq> newline \<and> prefix ''enabled'' ds))
      \<or> (c \<noteq> newline \<and> match_not_enabled cs))"

fun search_archive_not_enabled :: "string \<Rightarrow> bool" where
  "search_archive_not_enabled [] = False"
| "search_archive_not_enabled (c # cs) =
     ((prefix ''Archive'' (c # cs) \<and> match_not_enabled (drop 7 (c # cs)))
      \<or> search_archive_not_enabled cs)"

text \<open>\<^verbatim>\<open>re.search(r"%No Rollback Confirmed Change pending", rollback_state)\<close>: a literal.\<close>

definition search_no_rollback_pending :: "string \<Rightarrow> bool" where
  "search_no_rollback_pending s = contains s ''%No Rollback Confirmed Change pending''"

record options =
  commit_confirm_immediate :: bool
  commit_confirm_timeout :: "int option"

text \<open>Truth value of an optional integer: \<^verbatim>\<open>None\<close> and \<^verbatim>\<open>0\<close> are false.\<close>

fun truthy :: "int option \<Rightarrow> bool" where
  "truthy None = False"
| "truthy (Some n) = (n \<noteq> 0)"

text \<open>
  \<^verbatim>\<open>Cliconf.configure\<close> (the body under the \<^verbatim>\<open>enable_mode\<close> decorator). The third argument
  is the connection's \<^verbatim>\<open>persistent_command_timeout\<close>.
\<close>

definition configure :: "channel \<Rightarrow> options \<Rightarrow> int \<Rightarrow> history \<Rightarrow> (error + unit) \<times> history" where
  "configure ch opts persistent_command_timeout h =
     (if truthy (commit_confirm_timeout opts) \<or> commit_confirm_immediate opts then
        let commit_timeout =
              (case commit_confirm_timeout opts of
                 Some n \<Rightarrow> if n \<noteq> 0 then n else 1
               | None \<Rightarrow> 1)
        in
        case send_command ch (cmd ''show archive'') h of
          (Inl e, h1) \<Rightarrow> (Inl e, h1)
        | (Inr archive_state, h1) \<Rightarrow>
            (case send_command ch (cmd ''show archive config rollback timer'') h1 of
               (Inl e, h2) \<Rightarrow> (Inl e, h2)
             | (Inr rollback_state, h2) \<Rightarrow>
                 if persistent_command_timeout > commit_timeout * 60 then
                   (Inl (ValueError
                      ''ansible_command_timeout can't be greater than commit_confirm_timeout Please adjust and try again''),
                    h2)
                 else if search_archive_not_enabled archive_state then
                   (Inl (ValueError
                      ''commit_confirm_immediate option set, but archiving not enabled on device. Please set up archiving and try again''),
                    h2)
                 else if \<not> search_no_rollback_pending rollback_state then
                   (Inl (ValueError
                      (''Existing rollback change already pending. Please resolve by issuing 'configure confirm' or 'configure revert now''
                       @ [CHR 0x27])),
                    h2)
                 else
                   (case send_command ch
                           (cmd (''configure terminal revert timer '' @ str_int commit_timeout)) h2 of
                      (Inl e, h3) \<Rightarrow> (Inl e, h3)
                    | (Inr _, h3) \<Rightarrow> (Inr (), h3)))
      else
        (case send_command ch (cmd ''configure terminal'') h of
           (Inl e, h1) \<Rightarrow> (Inl e, h1)
         | (Inr _, h1) \<Rightarrow> (Inr (), h1)))"

section \<open>Applying commands\<close>

text \<open>
  \<^verbatim>\<open>check_edit_config_capability\<close> is inherited from the base class and is not part of
  the plugin; it is a parameter \<open>check\<close> of the candidate and the commit flag that returns
  the exception it raises, if any. \<^verbatim>\<open>to_list(candidate)\<close> is the list of lines itself.
\<close>

type_synonym capability_check = "line list \<Rightarrow> bool \<Rightarrow> error option"

text \<open>The keyword arguments of a line: \<^verbatim>\<open>line = {"command": line}\<close> for a plain string.\<close>

fun line_kwargs :: "line \<Rightarrow> kwargs" where
  "line_kwargs (Str s) = cmd s"
| "line_kwargs (Mapping m) = m"

text \<open>
  The loop of \<^verbatim>\<open>edit_config\<close> over the lines, with the accumulators \<^verbatim>\<open>requests\<close> and
  \<^verbatim>\<open>results\<close>. \<^verbatim>\<open>line["command"]\<close> raises \<^verbatim>\<open>KeyError\<close> on a mapping without that key,
  and \<^verbatim>\<open>cmd[0]\<close> raises \<^verbatim>\<open>IndexError\<close> on the empty string; \<^verbatim>\<open>and\<close> evaluates its
  second operand only when the first is true.
\<close>

fun send_lines ::
  "channel \<Rightarrow> line list \<Rightarrow> string list \<Rightarrow> string list \<Rightarrow> history
    \<Rightarrow> (error + string list \<times> string list) \<times> history" where
  "send_lines ch [] requests results h = (Inr (requests, results), h)"
| "send_lines ch (l # ls) requests results h =
     (case map_of (line_kwargs l) ''command'' of
        None \<Rightarrow> (Inl (KeyError ''command''), h)
      | Some c \<Rightarrow>
          if c \<noteq> ''end'' then
            (case c of
               [] \<Rightarrow> (Inl (IndexError ''string index out of range''), h)
             | c0 # _ \<Rightarrow>
                 if c0 \<noteq> CHR ''!'' then
                   (case send_command ch (line_kwargs l) h of
                      (Inl e, h') \<Rightarrow> (Inl e, h')
                    | (Inr out, h') \<Rightarrow> send_lines ch ls (requests @ [c]) (results @ [out]) h')
                 else send_lines ch ls requests results h)
          else send_lines ch ls requests results h)"

text \<open>
  \<^verbatim>\<open>Cliconf.edit_config\<close>; the result is the pair of \<^verbatim>\<open>resp["request"]\<close> and
  \<^verbatim>\<open>resp["response"]\<close>.
\<close>

definition edit_config ::
  "channel \<Rightarrow> capability_check \<Rightarrow> options \<Rightarrow> int \<Rightarrow> line list \<Rightarrow> bool \<Rightarrow> history
    \<Rightarrow> (error + string list \<times> string list) \<times> history" where
  "edit_config ch check opts persistent_command_timeout candidate commit h =
     (case check candidate commit of
        Some e \<Rightarrow> (Inl e, h)
      | None \<Rightarrow>
          let commit_confirm = commit_confirm_immediate opts in
          if commit then
            (case configure ch opts persistent_command_timeout h of
               (Inl e, h1) \<Rightarrow> (Inl e, h1)
             | (Inr _, h1) \<Rightarrow>
                 (case send_lines ch candidate [] [] h1 of
                    (Inl e, h2) \<Rightarrow> (Inl e, h2)
                  | (Inr (requests, results), h2) \<Rightarrow>
                      (case send_command ch (cmd ''end'') h2 of
                         (Inl e, h3) \<Rightarrow> (Inl e, h3)
                       | (Inr _, h3) \<Rightarrow>
                           if commit_confirm then
                             (case send_command ch (cmd ''configure confirm'') h3 of
                                (Inl e, h4) \<Rightarrow> (Inl e, h4)
                              | (Inr _, h4) \<Rightarrow> (Inr (requests, results), h4))
                           else (Inr (requests, results), h3))))
          else (Inl (ValueError ''check mode is not supported''), h))"

text \<open>
  \<^verbatim>\<open>Cliconf.edit_macro\<close>. The candidate is a Python list that the function changes in
  place with \<^verbatim>\<open>pop\<close>, so the model returns the caller's list after the call as the third
  component. \<^verbatim>\<open>pop\<close> raises \<^verbatim>\<open>IndexError\<close> on an empty list. The pauses
  (\<^verbatim>\<open>time.sleep\<close>) are not modelled.
\<close>

definition macro_payload :: "string \<Rightarrow> string list \<Rightarrow> string \<Rightarrow> string" where
  "macro_payload header body multiline_delimiter =
     header @ [newline] @ concat (map (\<lambda>l. '' '' @ l @ [newline]) body)
       @ multiline_delimiter @ [newline]"

definition edit_macro ::
  "channel \<Rightarrow> (string list \<Rightarrow> bool \<Rightarrow> error option) \<Rightarrow> string list \<Rightarrow> bool \<Rightarrow> history
    \<Rightarrow> (error + string list \<times> string list) \<times> history \<times> string list" where
  "edit_macro ch check candidate commit h =
     (case check candidate commit of
        Some e \<Rightarrow> (Inl e, h, candidate)
      | None \<Rightarrow>
          if commit then
            (case send_command ch (cmd ''config terminal'') h of
               (Inl e, h1) \<Rightarrow> (Inl e, h1, candidate)
             | (Inr _, h1) \<Rightarrow>
                 (case candidate of
                    [] \<Rightarrow> (Inl (IndexError ''pop from empty list''), h1, candidate)
                  | header # rest \<Rightarrow>
                      if rest = [] then (Inl (IndexError ''pop from empty list''), h1, rest)
                      else
                        let multiline_delimiter = last rest;
                            candidate' = butlast rest;
                            commands = macro_payload header candidate' multiline_delimiter
                        in
                        (case send_command ch [(''command'', commands), (''sendonly'', ''True'')] h1 of
                           (Inl e, h2) \<Rightarrow> (Inl e, h2, candidate')
                         | (Inr r1, h2) \<Rightarrow>
                             (case send_command ch [(''command'', ''end''), (''sendonly'', ''True'')] h2 of
                                (Inl e, h3) \<Rightarrow> (Inl e, h3, candidate')
                              | (Inr _, h3) \<Rightarrow>
                                  (case send_command ch (cmd [newline]) h3 of
                                     (Inl e, h4) \<Rightarrow> (Inl e, h4, candidate')
                                   | (Inr r2, h4) \<Rightarrow>
                                       (Inr ([commands, [newline]], [r1, r2]), h4, candidate'))))))
          else (Inr ([], []), h, candidate))"

section \<open>Running commands\<close>

text \<open>
  \<^verbatim>\<open>cmd.pop("output", None)\<close> on the keyword arguments: the value under the key, and the
  mapping without it.
\<close>

definition pop_key :: "string \<Rightarrow> kwargs \<Rightarrow> string option \<times> kwargs" where
  "pop_key k m = (map_of m k, filter (\<lambda>(k', _). k' \<noteq> k) m)"

text \<open>\<^verbatim>\<open>getattr(e, "err", to_text(e))\<close> for a connection failure.\<close>

fun failure_text :: "string option \<Rightarrow> string \<Rightarrow> string" where
  "failure_text (Some err) message = err"
| "failure_text None message = message"

text \<open>Truth value of an optional string: \<^verbatim>\<open>None\<close> and the empty string are false.\<close>

fun truthy_str :: "string option \<Rightarrow> bool" where
  "truthy_str None = False"
| "truthy_str (Some v) = (v \<noteq> [])"

fun run_loop :: "channel \<Rightarrow> bool \<Rightarrow> line list \<Rightarrow> string list \<Rightarrow> history
    \<Rightarrow> (error + string list) \<times> history" where
  "run_loop ch check_rc [] responses h = (Inr responses, h)"
| "run_loop ch check_rc (l # ls) responses h =
     (case pop_key ''output'' (line_kwargs l) of
        (output, kw) \<Rightarrow>
          if truthy_str output then
            (Inl (ValueError ([CHR 0x27] @ ''output'' @ [CHR 0x27] @ '' value ''
                     @ (case output of Some v \<Rightarrow> v | None \<Rightarrow> ''None'')
                     @ '' is not supported for run_commands'')), h)
          else
            (case send_command ch kw h of
               (Inr out, h') \<Rightarrow> run_loop ch check_rc ls (responses @ [out]) h'
             | (Inl (AnsibleConnectionFailure err message), h') \<Rightarrow>
                 if check_rc then (Inl (AnsibleConnectionFailure err message), h')
                 else run_loop ch check_rc ls (responses @ [failure_text err message]) h'
             | (Inl e, h') \<Rightarrow> (Inl e, h')))"

text \<open>\<^verbatim>\<open>Cliconf.run_commands\<close>; \<^verbatim>\<open>commands=None\<close> is \<open>None\<close>.\<close>

definition run_commands :: "channel \<Rightarrow> line list option \<Rightarrow> bool \<Rightarrow> history
    \<Rightarrow> (error + string list) \<times> history" where
  "run_commands ch commands check_rc h =
     (case commands of
        None \<Rightarrow> (Inl (ValueError ([CHR 0x27] @ ''commands'' @ [CHR 0x27] @ '' value is required'')), h)
      | Some cs \<Rightarrow> run_loop ch check_rc cs [] h)"

section \<open>Text functions\<close>

text \<open>
  Configuration text is ASCII. \<open>is_space\<close> is the class \<^verbatim>\<open>\s\<close> of the regular expressions
  and the characters removed by \<^verbatim>\<open>str.strip\<close>; \<open>is_word\<close> is the class \<^verbatim>\<open>\w\<close>.
\<close>

definition is_space :: "char \<Rightarrow> bool" where
  "is_space c = (c \<in> set [CHR '' '', CHR 0x09, CHR 0x0A, CHR 0x0B, CHR 0x0C, CHR 0x0D,
                             CHR 0x1C, CHR 0x1D, CHR 0x1E, CHR 0x1F])"

definition is_word :: "char \<Rightarrow> bool" where
  "is_word c = (c \<in> set ''abcdefghijklmnopqrstuvwxyzABCDEFGHIJKLMNOPQRSTUVWXYZ0123456789_'')"

definition lstrip :: "string \<Rightarrow> string" where
  "lstrip s = dropWhile is_space s"

definition rstrip :: "string \<Rightarrow> string" where
  "rstrip s = rev (dropWhile is_space (rev s))"

definition strip :: "string \<Rightarrow> string" where
  "strip s = rstrip (lstrip s)"

text \<open>\<^verbatim>\<open>sep.join(xs)\<close>.\<close>

fun join :: "string \<Rightarrow> string list \<Rightarrow> string" where
  "join sep [] = []"
| "join sep [x] = x"
| "join sep (x # y # ys) = x @ sep @ join sep (y # ys)"

text \<open>
  \<^verbatim>\<open>s.replace(old, new)\<close>: every occurrence of \<open>old\<close>, found from the left without
  overlap, becomes \<open>new\<close>. The plugin calls it with a non-empty \<open>old\<close>; for the empty \<open>old\<close>
  Python puts \<open>new\<close> before every character and at the end.
\<close>

function replace :: "string \<Rightarrow> string \<Rightarrow> string \<Rightarrow> string" where
  "replace old new [] = (if old = [] then new else [])"
| "replace old new (c # cs) =
     (if old = [] then new @ c # replace old new cs
      else if prefix old (c # cs) then new @ replace old new (drop (length old) (c # cs))
      else c # replace old new cs)"
  by pat_completeness auto
termination
  by (relation "measure (\<lambda>(old, new, s). length s)") (auto simp: neq_Nil_conv)

section \<open>Banners\<close>

text \<open>
  A Python dictionary with string keys is an association list with distinct keys in
  insertion order: \<open>dict_set\<close> is \<^verbatim>\<open>d[k] = v\<close> and \<^verbatim>\<open>d.get(k)\<close> is \<^const>\<open>map_of\<close>.
\<close>

type_synonym banners = "(string \<times> string) list"

fun dict_set :: "banners \<Rightarrow> string \<Rightarrow> string \<Rightarrow> banners" where
  "dict_set [] k v = [(k, v)]"
| "dict_set ((k', v') # d) k v = (if k' = k then (k, v) # d else (k', v') # dict_set d k v)"

text \<open>
  \<^verbatim>\<open>re.findall(r"^banner (\w+)", config, re.M)\<close>: the names of the banner declarations,
  one for each line that starts with \<^verbatim>\<open>banner\<close>, a space and a word character. The flag
  tells whether the position is at the start of a line.
\<close>

fun banner_names :: "bool \<Rightarrow> string \<Rightarrow> string list" where
  "banner_names bol [] = []"
| "banner_names bol (c # cs) =
     (if bol \<and> prefix ''banner '' (c # cs) \<and> takeWhile is_word (drop 7 (c # cs)) \<noteq> []
      then takeWhile is_word (drop 7 (c # cs)) # banner_names (c = newline) cs
      else banner_names (c = newline) cs)"

definition findall_banner_cmds :: "string \<Rightarrow> string list" where
  "findall_banner_cmds config = banner_names True config"

text \<open>
  \<^verbatim>\<open>re.search(r"banner %s \^C(.+?)(?=\^C)" % cmd, config, re.S)\<close>, the group 1 of the
  match. \<open>body_until_delimiter\<close> is \<^verbatim>\<open>(.+?)(?=\^C)\<close> tried at the start of its argument:
  the shortest non-empty text that is followed by the two characters \<^verbatim>\<open>^C\<close>. The search
  takes the leftmost position at which the whole pattern matches.
\<close>

fun body_until_delimiter :: "string \<Rightarrow> string option" where
  "body_until_delimiter [] = None"
| "body_until_delimiter (c # cs) =
     (if prefix ''^C'' cs then Some [c] else map_option (Cons c) (body_until_delimiter cs))"

fun search_banner :: "string \<Rightarrow> string \<Rightarrow> string option" where
  "search_banner name [] = None"
| "search_banner name (c # cs) =
     (if prefix (''banner '' @ name @ '' ^C'') (c # cs) then
        (case body_until_delimiter (drop (length (''banner '' @ name @ '' ^C'')) (c # cs)) of
           Some body \<Rightarrow> Some body
         | None \<Rightarrow> search_banner name cs)
      else search_banner name cs)"

text \<open>\<^verbatim>\<open>re.sub(r"banner \w+ \^C\^C", "!! banner removed", config)\<close>.\<close>

function sub_banner_removed :: "string \<Rightarrow> string" where
  "sub_banner_removed [] = []"
| "sub_banner_removed (c # cs) =
     (let name = takeWhile is_word (drop 7 (c # cs));
          rest = dropWhile is_word (drop 7 (c # cs))
      in if prefix ''banner '' (c # cs) \<and> name \<noteq> [] \<and> prefix '' ^C^C'' rest
         then ''!! banner removed'' @ sub_banner_removed (drop 5 rest)
         else c # sub_banner_removed cs)"
  by pat_completeness auto
termination
proof (relation "measure length")
  show "wf (measure length)" by simp
next
  fix c :: char and cs :: string and name :: string and rest :: string
  assume "rest = dropWhile is_word (drop 7 (c # cs))"
  then have "length rest \<le> length (c # cs)"
    by (metis length_dropWhile_le length_drop diff_le_self le_trans)
  moreover assume "prefix ''banner '' (c # cs) \<and> name \<noteq> [] \<and> prefix '' ^C^C'' rest"
  then have "length rest \<ge> 5" by (auto simp: prefix_def)
  ultimately show "(drop 5 rest, c # cs) \<in> measure length" by simp
next
  fix c :: char and cs :: string and name :: string and rest :: string
  show "(cs, c # cs) \<in> measure length" by simp
qed

text \<open>
  \<^verbatim>\<open>Cliconf._extract_banners\<close>. The first loop fills the dictionary from the text as
  given; the second loop removes each body from the text, every search being made in the
  text as changed so far.
\<close>

fun collect_banners :: "string \<Rightarrow> string list \<Rightarrow> banners \<Rightarrow> banners" where
  "collect_banners config [] banners = banners"
| "collect_banners config (name # names) banners =
     (case search_banner name config of
        Some body \<Rightarrow> collect_banners config names (dict_set banners (''banner '' @ name) (strip body))
      | None \<Rightarrow> collect_banners config names banners)"

fun remove_bodies :: "string list \<Rightarrow> string \<Rightarrow> string" where
  "remove_bodies [] config = config"
| "remove_bodies (name # names) config =
     (case search_banner name config of
        Some body \<Rightarrow> remove_bodies names (replace body [] config)
      | None \<Rightarrow> remove_bodies names config)"

definition extract_banners :: "string \<Rightarrow> string \<times> banners" where
  "extract_banners config =
     (let banner_cmds = findall_banner_cmds config;
          banners = collect_banners config banner_cmds [];
          config' = remove_bodies banner_cmds config
      in (sub_banner_removed config', banners))"

text \<open>\<^verbatim>\<open>Cliconf._diff_banners\<close>.\<close>

fun diff_banners_loop :: "banners \<Rightarrow> banners \<Rightarrow> banners \<Rightarrow> banners" where
  "diff_banners_loop [] have candidate = candidate"
| "diff_banners_loop ((key, val) # want) have candidate =
     (if Some val \<noteq> map_of have key
      then diff_banners_loop want have (dict_set candidate key val)
      else diff_banners_loop want have candidate)"

definition diff_banners :: "banners \<Rightarrow> banners \<Rightarrow> banners" where
  "diff_banners want have = diff_banners_loop want have []"

section \<open>Configuration diff\<close>

text \<open>\<^verbatim>\<open>Cliconf.get_device_operations\<close> and \<^verbatim>\<open>Cliconf.get_option_values\<close>.\<close>

record device_operations =
  supports_diff_replace :: bool
  supports_commit :: bool
  supports_rollback :: bool
  supports_defaults :: bool
  supports_onbox_diff :: bool
  supports_commit_comment :: bool
  supports_multiline_delimiter :: bool
  supports_diff_match :: bool
  supports_diff_ignore_lines :: bool
  supports_generate_diff :: bool
  supports_replace :: bool

definition get_device_operations :: device_operations where
  "get_device_operations =
     \<lparr>supports_diff_replace = True, supports_commit = False, supports_rollback = False,
      supports_defaults = True, supports_onbox_diff = False, supports_commit_comment = False,
      supports_multiline_delimiter = True, supports_diff_match = True,
      supports_diff_ignore_lines = True, supports_generate_diff = True,
      supports_replace = False\<rparr>"

record option_values =
  values_format :: "string list"
  values_diff_match :: "string list"
  values_diff_replace :: "string list"
  values_output :: "string list"

definition get_option_values :: option_values where
  "get_option_values =
     \<lparr>values_format = [''text''],
      values_diff_match = [''line'', ''strict'', ''exact'', ''none''],
      values_diff_replace = [''line'', ''block''],
      values_output = []\<rparr>"

subsection \<open>Splitting the candidate into sections\<close>

text \<open>
  \<^verbatim>\<open>re.sub("\n\n", "\n", candidate)\<close>: each pair of newlines, found from the left without
  overlap, becomes one newline.
\<close>

fun sub_blank_lines :: "string \<Rightarrow> string" where
  "sub_blank_lines (c1 # c2 # cs) =
     (if c1 = newline \<and> c2 = newline then newline # sub_blank_lines cs
      else c1 # sub_blank_lines (c2 # cs))"
| "sub_blank_lines cs = cs"

text \<open>
  \<^verbatim>\<open>re.findall(r"(?P<parent>^\w.*\n?)(?P<child>(?:\s+.*\n?)*)", candidate, re.M)\<close>.

  The group \<^verbatim>\<open>parent\<close> is a line that starts with a word character, with its newline if
  it has one: \<open>rest_of_line\<close> splits the text after the end of the line.

  The group \<^verbatim>\<open>child\<close> repeats \<^verbatim>\<open>\s+.*\n?\<close>. Every operator is greedy and nothing follows
  the group, so no backtracking takes place: a repetition starts only at a whitespace
  character (\<open>Start\<close>), takes the longest run of whitespace, newlines included (\<open>Ws\<close>),
  then the rest of the line and its newline (\<open>Line\<close>). \<open>child_group\<close> returns the text of
  the group and the text left.

  A match ends after a newline or at the end of the text, so the search for the next
  match resumes at the start of a line.
\<close>

fun rest_of_line :: "string \<Rightarrow> string \<times> string" where
  "rest_of_line [] = ([], [])"
| "rest_of_line (c # cs) =
     (if c = newline then ([c], cs)
      else case rest_of_line cs of (l, r) \<Rightarrow> (c # l, r))"

datatype child_state = Start | Ws | Line

fun child_group :: "child_state \<Rightarrow> string \<Rightarrow> string \<times> string" where
  "child_group st [] = ([], [])"
| "child_group Start (c # cs) =
     (if is_space c then (case child_group Ws cs of (g, r) \<Rightarrow> (c # g, r)) else ([], c # cs))"
| "child_group Ws (c # cs) =
     (if is_space c then (case child_group Ws cs of (g, r) \<Rightarrow> (c # g, r))
      else (case child_group Line cs of (g, r) \<Rightarrow> (c # g, r)))"
| "child_group Line (c # cs) =
     (if c = newline then (case child_group Start cs of (g, r) \<Rightarrow> (c # g, r))
      else (case child_group Line cs of (g, r) \<Rightarrow> (c # g, r)))"

function findall_sections :: "bool \<Rightarrow> string \<Rightarrow> (string \<times> string) list" where
  "findall_sections bol [] = []"
| "findall_sections bol (c # cs) =
     (if bol \<and> is_word c then
        (case rest_of_line cs of
           (l, r) \<Rightarrow>
             (case child_group Start r of
                (child, r') \<Rightarrow> (c # l, child) # findall_sections True r'))
      else findall_sections (c = newline) cs)"
  by pat_completeness auto
termination
proof -
  have line: "length r \<le> length s" if "(l, r) = rest_of_line s" for s l r
    using that by (induction s arbitrary: l r) (auto split: prod.splits if_splits)
  have group: "length r \<le> length s" if "(g, r) = child_group st s" for st s g r
    using that
    by (induction st s arbitrary: g r rule: child_group.induct)
       (fastforce split: prod.splits if_splits)+
  show ?thesis
    by (relation "measure (\<lambda>(bol, s). length s)") (auto dest!: line group)
qed

definition findall_cand_pattern :: "string \<Rightarrow> (string \<times> string) list" where
  "findall_cand_pattern candidate = findall_sections True candidate"

subsection \<open>The configuration library\<close>

text \<open>
  \<^verbatim>\<open>NetworkConfig\<close>, its lines (\<^verbatim>\<open>ConfigLine\<close>) and \<^verbatim>\<open>dumps\<close> are imported from the
  \<^verbatim>\<open>ansible.netcommon\<close> collection. \<^verbatim>\<open>get_diff\<close> takes them as the parameter \<open>nc\<close>, a
  record of the operations it calls, over a type \<open>'c\<close> of configuration objects and a
  type \<open>'l\<close> of lines:
  \<^item> \<open>nc_load contents ignore_lines\<close> is \<^verbatim>\<open>NetworkConfig(indent=1, contents=..., ignore_lines=...)\<close>,
    also reached as \<^verbatim>\<open>NetworkConfig(indent=1)\<close> followed by \<^verbatim>\<open>load(contents)\<close>;
  \<^item> \<open>nc_get_block\<close> is \<^verbatim>\<open>get_block(path)\<close>, \<open>nc_items\<close> the attribute \<^verbatim>\<open>items\<close>,
    \<open>nc_difference\<close> the method \<^verbatim>\<open>difference(other, path=, match=, replace=)\<close>;
  \<^item> \<open>nc_dumps\<close> is \<^verbatim>\<open>dumps(objects, "commands")\<close>;
  \<^item> \<open>line_eq\<close> is the equality of lines used by \<^verbatim>\<open>in\<close>, and \<open>line_parents\<close>,
    \<open>line_text\<close>, \<open>line_has_children\<close>, \<open>line_str\<close> are \<^verbatim>\<open>line.parents\<close>, \<^verbatim>\<open>line.text\<close>,
    \<^verbatim>\<open>line.has_children\<close> and \<^verbatim>\<open>str(line)\<close>.
\<close>

record ('c, 'l) network_config =
  nc_load :: "string option \<Rightarrow> string list option \<Rightarrow> error + 'c"
  nc_get_block :: "'c \<Rightarrow> string list \<Rightarrow> error + 'l list"
  nc_items :: "'c \<Rightarrow> 'l list"
  nc_difference :: "'c \<Rightarrow> 'c \<Rightarrow> string list option \<Rightarrow> string \<Rightarrow> string \<Rightarrow> error + 'l list"
  nc_dumps :: "'l list \<Rightarrow> string"
  line_eq :: "'l \<Rightarrow> 'l \<Rightarrow> bool"
  line_parents :: "'l \<Rightarrow> string list"
  line_text :: "'l \<Rightarrow> string"
  line_has_children :: "'l \<Rightarrow> bool"
  line_str :: "'l \<Rightarrow> string"

text \<open>\<^verbatim>\<open>line in lines\<close>.\<close>

definition line_in :: "('c, 'l) network_config \<Rightarrow> 'l \<Rightarrow> 'l list \<Rightarrow> bool" where
  "line_in nc line lines = list_ex (\<lambda>x. line_eq nc x line) lines"

subsection \<open>The exact match without a path\<close>

text \<open>
  The loop over \<^verbatim>\<open>have_lines\<close> with the accumulators \<^verbatim>\<open>negates\<close> and
  \<^verbatim>\<open>negated_parents\<close>. The generator of the parents is consumed before \<^verbatim>\<open>negates\<close> is
  assigned, so each parent is tested against the text as it was before the line;
  \<^verbatim>\<open>i not in negates\<close> is a test on substrings.
\<close>

fun negates_loop ::
  "('c, 'l) network_config \<Rightarrow> 'l list \<Rightarrow> 'l list \<Rightarrow> string \<Rightarrow> string list \<Rightarrow> string" where
  "negates_loop nc want_lines [] negates negated_parents = negates"
| "negates_loop nc want_lines (line # have_lines) negates negated_parents =
     (if \<not> line_in nc line want_lines then
        let negates1 = negates @ concat (map (\<lambda>i. i @ [newline])
                         (filter (\<lambda>i. \<not> contains negates i \<and> i \<notin> set negated_parents)
                            (line_parents nc line)));
            negated_parents1 = (if line_has_children nc line
                                then negated_parents @ [line_text nc line]
                                else negated_parents);
            negates2 = (if \<not> prefix ''no '' (strip (line_text nc line))
                        then negates1 @ ''no '' @ line_str nc line @ [newline]
                        else negates1 @ line_str nc line @ [newline])
        in negates_loop nc want_lines have_lines negates2 negated_parents1
      else negates_loop nc want_lines have_lines negates negated_parents)"

fun wants_loop :: "('c, 'l) network_config \<Rightarrow> 'l list \<Rightarrow> 'l list \<Rightarrow> string \<Rightarrow> string" where
  "wants_loop nc have_lines [] wants = wants"
| "wants_loop nc have_lines (line # want_lines) wants =
     (if \<not> line_in nc line have_lines then
        let wants1 = wants @ concat (map (\<lambda>i. i @ [newline])
                       (filter (\<lambda>i. \<not> contains wants i) (line_parents nc line)));
            wants2 = wants1 @ line_str nc line @ [newline]
        in wants_loop nc have_lines want_lines wants2
      else wants_loop nc have_lines want_lines wants)"

text \<open>
  The body of the loop over the sections, for one section: the text it appends to
  \<^verbatim>\<open>diff["config_diff"]\<close>. Only a \<^verbatim>\<open>ValueError\<close> of the running configuration's
  \<^verbatim>\<open>get_block\<close> is caught.
\<close>

definition section_diff ::
  "('c, 'l) network_config \<Rightarrow> string option \<Rightarrow> string list option \<Rightarrow> string \<times> string
    \<Rightarrow> error + string" where
  "section_diff nc running diff_ignore_lines candidate_section =
     (let path = [strip (fst candidate_section)];
          candidate_text = fst candidate_section @ snd candidate_section
      in case nc_load nc (Some candidate_text) None of
           Inl e \<Rightarrow> Inl e
         | Inr candidate_obj \<Rightarrow>
             (case nc_load nc running diff_ignore_lines of
                Inl e \<Rightarrow> Inl e
              | Inr running_obj \<Rightarrow>
                  (case (case nc_get_block nc running_obj path of
                           Inl (ValueError _) \<Rightarrow> Inr []
                         | Inl e \<Rightarrow> Inl e
                         | Inr ls \<Rightarrow> Inr ls) of
                     Inl e \<Rightarrow> Inl e
                   | Inr have_lines \<Rightarrow>
                       (case nc_get_block nc candidate_obj path of
                          Inl e \<Rightarrow> Inl e
                        | Inr want_lines \<Rightarrow>
                            Inr (negates_loop nc want_lines have_lines [] []
                                 @ wants_loop nc have_lines want_lines [])))))"

fun sections_loop ::
  "('c, 'l) network_config \<Rightarrow> string option \<Rightarrow> string list option \<Rightarrow> (string \<times> string) list
    \<Rightarrow> string \<Rightarrow> error + string" where
  "sections_loop nc running diff_ignore_lines [] config_diff = Inr config_diff"
| "sections_loop nc running diff_ignore_lines (s # candidates) config_diff =
     (case section_diff nc running diff_ignore_lines s of
        Inl e \<Rightarrow> Inl e
      | Inr d \<Rightarrow> sections_loop nc running diff_ignore_lines candidates (config_diff @ d))"

subsection \<open>\<^verbatim>\<open>Cliconf.get_diff\<close>\<close>

record diff =
  config_diff :: string
  banner_diff :: banners

text \<open>
  Absent arguments (\<^verbatim>\<open>None\<close>) are \<open>None\<close>; \<^verbatim>\<open>not path\<close> holds for \<^verbatim>\<open>None\<close> and for the
  empty list, \<^verbatim>\<open>running\<close> is false when it is \<^verbatim>\<open>None\<close> or empty. With the candidate absent
  and no support for generating the diff, \<^verbatim>\<open>re.sub\<close> would raise a \<^verbatim>\<open>TypeError\<close>.
\<close>

definition get_diff ::
  "('c, 'l) network_config \<Rightarrow> string option \<Rightarrow> string option \<Rightarrow> string \<Rightarrow> string list option
    \<Rightarrow> string list option \<Rightarrow> string \<Rightarrow> error + diff" where
  "get_diff nc candidate running diff_match diff_ignore_lines path diff_replace =
     (let device_operations = get_device_operations;
          option_values = get_option_values
      in
      if candidate = None \<and> supports_generate_diff device_operations then
        Inl (ValueError ''candidate configuration is required to generate diff'')
      else if diff_match \<notin> set (values_diff_match option_values) then
        Inl (ValueError ([CHR 0x27] @ ''match'' @ [CHR 0x27] @ '' value '' @ diff_match
               @ '' in invalid, valid values are '' @ join '', '' (values_diff_match option_values)))
      else if diff_replace \<notin> set (values_diff_replace option_values) then
        Inl (ValueError ([CHR 0x27] @ ''replace'' @ [CHR 0x27] @ '' value '' @ diff_replace
               @ '' in invalid, valid values are '' @ join '', '' (values_diff_replace option_values)))
      else
        case candidate of
          None \<Rightarrow> Inl (TypeError ''expected string or bytes-like object'')
        | Some candidate0 \<Rightarrow>
            let candidate1 = sub_blank_lines candidate0;
                candidates = findall_cand_pattern candidate1
            in
            if candidates \<noteq> [] \<and> (path = None \<or> path = Some []) \<and> diff_match = ''exact'' then
              (case sections_loop nc running diff_ignore_lines candidates [] of
                 Inl e \<Rightarrow> Inl e
               | Inr d \<Rightarrow> Inr \<lparr>config_diff = rstrip d, banner_diff = []\<rparr>)
            else
              (case extract_banners candidate1 of
                 (want_src, want_banners) \<Rightarrow>
                   (case nc_load nc (Some want_src) None of
                      Inl e \<Rightarrow> Inl e
                    | Inr candidate_obj \<Rightarrow>
                        (case (if running \<noteq> None \<and> running \<noteq> Some [] \<and> diff_match \<noteq> ''none'' then
                                 (case extract_banners (case running of Some r \<Rightarrow> r | None \<Rightarrow> []) of
                                    (have_src, have_banners) \<Rightarrow>
                                      (case nc_load nc (Some have_src) diff_ignore_lines of
                                         Inl e \<Rightarrow> Inl e
                                       | Inr running_obj \<Rightarrow>
                                           (case nc_difference nc candidate_obj running_obj path
                                                   diff_match diff_replace of
                                              Inl e \<Rightarrow> Inl e
                                            | Inr configdiffobjs \<Rightarrow> Inr (configdiffobjs, have_banners))))
                               else Inr (nc_items nc candidate_obj, [])) of
                           Inl e \<Rightarrow> Inl e
                         | Inr (configdiffobjs, have_banners) \<Rightarrow>
                             Inr \<lparr>config_diff =
                                    (if configdiffobjs \<noteq> [] then nc_dumps nc configdiffobjs else []),
                                  banner_diff = diff_banners want_banners have_banners\<rparr>))))"

section \<open>The configuration tree of the specification\<close>

text \<open>
  Modelled from the spec: \<^verbatim>\<open>NetworkConfig\<close> (parsing, \<^verbatim>\<open>get_block\<close>, \<^verbatim>\<open>difference\<close>),
  \<^verbatim>\<open>ConfigLine\<close> and \<^verbatim>\<open>dumps\<close>, which the plugin imports from \<^verbatim>\<open>ansible.netcommon\<close>, are
  not in the plugin's source. The definitions of this section follow the specification's
  description of the configuration tree and of the diff engine; they instantiate the
  parameter \<open>nc\<close> of \<open>get_diff\<close> where a property is evaluated on a concrete text.

\<close>

text \<open>
  Modelled from the spec: \<^verbatim>\<open>ConfigLine\<close>. A line has its trimmed text, its indentation
  depth, the texts of its ancestors from the root down, and the flag "has children". A
  tree is the list of its lines in document order.
\<close>

record config_line =
  cl_text :: string
  cl_depth :: nat
  cl_parents :: "string list"
  cl_has_children :: bool

text \<open>
  Modelled from the spec: the lines of the flat configuration text that is parsed, the
  text split at each newline.
\<close>

fun split_lines :: "string \<Rightarrow> string list" where
  "split_lines [] = [[]]"
| "split_lines (c # cs) =
     (if c = newline then [] # split_lines cs
      else case split_lines cs of l # ls \<Rightarrow> (c # l) # ls | [] \<Rightarrow> [[c]])"

text \<open>
  Modelled from the spec: blank lines and lines matching an ignore pattern are dropped
  (a pattern is taken as the exact text of a line); the depth of a line is its count of
  leading whitespace.
\<close>

definition prepare_lines :: "string \<Rightarrow> string list \<Rightarrow> (nat \<times> string) list" where
  "prepare_lines contents ignore_lines =
     map (\<lambda>l. (length (takeWhile is_space l), strip l))
       (filter (\<lambda>l. strip l \<noteq> [] \<and> strip l \<notin> set ignore_lines) (split_lines contents))"

text \<open>
  Modelled from the spec: the stack-based indentation parser. The stack holds the depth
  and the text of the open ancestors, the nearest first: pop while the depth on top is
  at least the depth of the line, make the line a child of the new top (a root when the
  stack is empty), push the line. A line has children exactly when the next line is
  deeper.
\<close>

fun parse_stack :: "(nat \<times> string) list \<Rightarrow> (nat \<times> string) list \<Rightarrow> config_line list" where
  "parse_stack stack [] = []"
| "parse_stack stack ((d, t) # rest) =
     (let stack' = dropWhile (\<lambda>(d', t'). d' \<ge> d) stack
      in \<lparr>cl_text = t, cl_depth = d, cl_parents = rev (map snd stack'),
          cl_has_children = (case rest of [] \<Rightarrow> False | (d2, t2) # rest' \<Rightarrow> d2 > d)\<rparr>
         # parse_stack ((d, t) # stack') rest)"

text \<open>
  Modelled from the spec: \<^verbatim>\<open>parse(text, ignore_lines)\<close>, the parser started with an empty
  stack on the lines kept.
\<close>

definition parse :: "string \<Rightarrow> string list \<Rightarrow> config_line list" where
  "parse contents ignore_lines = parse_stack [] (prepare_lines contents ignore_lines)"

text \<open>
  Modelled from the spec: one step of \<^verbatim>\<open>get_block\<close>. At a segment of the path the walk
  takes the first line at the current nesting level whose text is the segment; the block
  of a line is the list of its descendants in document order, the lines that follow it
  at a deeper nesting level.
\<close>

fun find_block :: "nat \<Rightarrow> string \<Rightarrow> config_line list \<Rightarrow> config_line list option" where
  "find_block level seg [] = None"
| "find_block level seg (l # ls) =
     (if length (cl_parents l) = level \<and> cl_text l = seg
      then Some (takeWhile (\<lambda>x. length (cl_parents x) > level) ls)
      else find_block level seg ls)"

text \<open>
  Modelled from the spec: the walk of \<^verbatim>\<open>get_block\<close> along the path, among the roots for the
  first segment and within the block of the line found before afterwards; it fails with
  "block not found" when a segment matches no line.
\<close>

fun walk_path :: "nat \<Rightarrow> string list \<Rightarrow> config_line list \<Rightarrow> error + config_line list" where
  "walk_path level [] ls = Inr ls"
| "walk_path level (seg # path) ls =
     (case find_block level seg ls of
        None \<Rightarrow> Inl (ValueError ''path does not exist in config'')
      | Some block \<Rightarrow> walk_path (Suc level) path block)"

text \<open>Modelled from the spec: \<^verbatim>\<open>get_block(path)\<close>, the walk started at the roots.\<close>

definition get_block :: "config_line list \<Rightarrow> string list \<Rightarrow> error + config_line list" where
  "get_block tree path = walk_path 0 path tree"

text \<open>
  Modelled from the spec: two lines are equal when their texts are equal, and for the
  modes \<^verbatim>\<open>strict\<close> and \<^verbatim>\<open>exact\<close> when also the texts of their parents are equal.
\<close>

definition same_line :: "bool \<Rightarrow> config_line \<Rightarrow> config_line \<Rightarrow> bool" where
  "same_line with_parents a b =
     (cl_text a = cl_text b \<and> (if with_parents then cl_parents a = cl_parents b else True))"

text \<open>
  Modelled from the spec: the restriction of a tree to the path of the general case of
  the diff engine, when a path is given.
\<close>

definition restrict_tree :: "config_line list \<Rightarrow> string list option \<Rightarrow> error + config_line list" where
  "restrict_tree tree path =
     (case path of None \<Rightarrow> Inr tree | Some p \<Rightarrow> if p = [] then Inr tree else get_block tree p)"

text \<open>Modelled from the spec: the text of the top-level line of the block a line is in.\<close>

definition top_of :: "config_line \<Rightarrow> string" where
  "top_of l = (case cl_parents l of [] \<Rightarrow> cl_text l | p # ps \<Rightarrow> p)"

text \<open>
  Modelled from the spec: \<^verbatim>\<open>difference\<close>, the general case of the diff engine. Both trees
  are restricted to the path (a path that the running tree does not have leaves it
  empty); a candidate line is satisfied when the running tree has an equal line; the
  output has the lines that are not satisfied with the ancestors that give their
  context, and with \<^verbatim>\<open>replace=block\<close> the whole top-level block of such a line.
\<close>

definition difference ::
  "config_line list \<Rightarrow> config_line list \<Rightarrow> string list option \<Rightarrow> string \<Rightarrow> string
    \<Rightarrow> error + config_line list" where
  "difference candidate running path diff_match diff_replace =
     (case restrict_tree candidate path of
        Inl e \<Rightarrow> Inl e
      | Inr want \<Rightarrow>
          let have = (case restrict_tree running path of Inl e \<Rightarrow> [] | Inr ls \<Rightarrow> ls);
              missing = filter (\<lambda>l. \<not> list_ex (same_line (diff_match \<noteq> ''line'') l) have) want
          in Inr (filter (\<lambda>l. l \<in> set missing
                          \<or> list_ex (\<lambda>m. cl_parents l @ [cl_text l]
                                          = take (Suc (length (cl_parents l))) (cl_parents m)) missing
                          \<or> (diff_replace = ''block'' \<and> list_ex (\<lambda>m. top_of m = top_of l) missing))
                     want))"

text \<open>
  Modelled from the spec: the configuration library as \<open>get_diff\<close> uses it. A
  configuration object is the tree parsed from the contents (empty without contents),
  \<^verbatim>\<open>dumps\<close> joins the texts of the lines with newlines, lines are compared with their
  parents, and a line is printed as its text.
\<close>

definition spec_network_config :: "(config_line list, config_line) network_config" where
  "spec_network_config =
     \<lparr>nc_load = (\<lambda>contents ignore_lines.
          Inr (parse (case contents of Some c \<Rightarrow> c | None \<Rightarrow> [])
                     (case ignore_lines of Some ig \<Rightarrow> ig | None \<Rightarrow> []))),
      nc_get_block = get_block,
      nc_items = (\<lambda>tree. tree),
      nc_difference = difference,
      nc_dumps = (\<lambda>ls. join [newline] (map cl_text ls)),
      line_eq = same_line True,
      line_parents = cl_parents,
      line_text = cl_text,
      line_has_children = cl_has_children,
      line_str = cl_text\<rparr>"

section \<open>Vocabulary of the properties\<close>

text \<open>
  The predicates and functions below belong to the statements of the properties, not to
  the plugin: a channel that never raises, the command of a line, the lines that
  \<^verbatim>\<open>edit_config\<close> is meant to skip, and the responses a channel gives to a sequence of
  requests sent one after the other from a history.
\<close>

definition reliable :: "channel \<Rightarrow> bool" where
  "reliable ch = (\<forall>h r. \<exists>out. ch h r = Inr out)"

definition command_of :: "line \<Rightarrow> string" where
  "command_of l = (case map_of (line_kwargs l) ''command'' of Some c \<Rightarrow> c | None \<Rightarrow> [])"

definition skipped :: "line \<Rightarrow> bool" where
  "skipped l = (command_of l = ''end'' \<or> prefix ''!'' (command_of l))"

fun spec_responses :: "channel \<Rightarrow> history \<Rightarrow> kwargs list \<Rightarrow> string list" where
  "spec_responses ch h [] = []"
| "spec_responses ch h (r # rs) =
     (case ch h r of Inr out \<Rightarrow> out | Inl _ \<Rightarrow> []) # spec_responses ch (h @ [r]) rs"

definition well_formed_line :: "line \<Rightarrow> bool" where
  "well_formed_line l = (\<exists>c. map_of (line_kwargs l) ''command'' = Some c \<and> c \<noteq> [])"

text \<open>
  For \<^verbatim>\<open>run_commands\<close>: the request sent for a line (its keyword arguments without
  \<^verbatim>\<open>output\<close>), lines that ask for no output format, channels whose only exceptions are
  connection failures, and the responses expected when failures are reported inline (the
  failure's text in place of the response).
\<close>

definition request_of :: "line \<Rightarrow> kwargs" where
  "request_of l = snd (pop_key ''output'' (line_kwargs l))"

definition no_output :: "line \<Rightarrow> bool" where
  "no_output l = (\<not> truthy_str (fst (pop_key ''output'' (line_kwargs l))))"

fun is_connection_failure :: "error \<Rightarrow> bool" where
  "is_connection_failure (AnsibleConnectionFailure err message) = True"
| "is_connection_failure _ = False"

definition only_connection_failures :: "channel \<Rightarrow> bool" where
  "only_connection_failures ch = (\<forall>h r e. ch h r = Inl e \<longrightarrow> is_connection_failure e)"

fun inline_responses :: "channel \<Rightarrow> history \<Rightarrow> kwargs list \<Rightarrow> string list" where
  "inline_responses ch h [] = []"
| "inline_responses ch h (r # rs) =
     (case ch h r of
        Inr out \<Rightarrow> out
      | Inl (AnsibleConnectionFailure err message) \<Rightarrow> failure_text err message
      | Inl _ \<Rightarrow> [])
     # inline_responses ch (h @ [r]) rs"

text \<open>
  For the exact match: the block that a section is compared with (the block of the running
  configuration at the anchor of the section, empty when the path does not resolve), the
  block of the section itself, and the agreement of the two, each line of one being in the
  other.
\<close>

definition have_block ::
  "('c, 'l) network_config \<Rightarrow> string option \<Rightarrow> string list option \<Rightarrow> string \<times> string
    \<Rightarrow> error + 'l list" where
  "have_block nc running diff_ignore_lines s =
     (case nc_load nc running diff_ignore_lines of
        Inl e \<Rightarrow> Inl e
      | Inr running_obj \<Rightarrow>
          (case nc_get_block nc running_obj [strip (fst s)] of
             Inl (ValueError _) \<Rightarrow> Inr []
           | Inl e \<Rightarrow> Inl e
           | Inr ls \<Rightarrow> Inr ls))"

definition want_block :: "('c, 'l) network_config \<Rightarrow> string \<times> string \<Rightarrow> error + 'l list" where
  "want_block nc s =
     (case nc_load nc (Some (fst s @ snd s)) None of
        Inl e \<Rightarrow> Inl e
      | Inr candidate_obj \<Rightarrow> nc_get_block nc candidate_obj [strip (fst s)])"

definition blocks_agree ::
  "('c, 'l) network_config \<Rightarrow> string option \<Rightarrow> string list option \<Rightarrow> string \<times> string \<Rightarrow> bool" where
  "blocks_agree nc running diff_ignore_lines s =
     (case (have_block nc running diff_ignore_lines s, want_block nc s) of
        (Inr have_lines, Inr want_lines) \<Rightarrow>
          list_all (\<lambda>l. line_in nc l want_lines) have_lines
          \<and> list_all (\<lambda>l. line_in nc l have_lines) want_lines
      | _ \<Rightarrow> False)"

text \<open>
  An empty banner declaration: the text \<^verbatim>\<open>banner\<close>, a space, a name of word characters, a
  space and the delimiter \<^verbatim>\<open>^C\<close> twice, anywhere in the configuration text.
\<close>

definition has_empty_banner :: "string \<Rightarrow> bool" where
  "has_empty_banner config =
     (\<exists>pre name post. config = pre @ ''banner '' @ name @ '' ^C^C'' @ post
        \<and> name \<noteq> [] \<and> list_all is_word name)"

text \<open>
  For the idempotence of the exact match on the configuration tree of the specification:
  the roots of a tree (the lines without a parent) with their blocks, and the texts in
  which any two roots with the same text have the same block.
\<close>

fun root_blocks :: "config_line list \<Rightarrow> (string \<times> config_line list) list" where
  "root_blocks [] = []"
| "root_blocks (l # ls) =
     (if cl_parents l = [] then (cl_text l, takeWhile (\<lambda>x. cl_parents x \<noteq> []) ls) # root_blocks ls
      else root_blocks ls)"

definition repeated_roots_agree :: "string \<Rightarrow> bool" where
  "repeated_roots_agree X =
     (let blocks = root_blocks (parse X [])
      in list_all (\<lambda>p. list_all (\<lambda>q. if fst p = fst q then snd p = snd q else True) blocks) blocks)"

text \<open>
  A section \<open>(p, c)\<close> found in a text after \<open>a\<close> and before \<open>post\<close>: it starts at the start
  of a line with a word character, its parent \<open>p\<close> is one line, and what follows it starts
  a line with a character that is not whitespace.
\<close>

definition section_at :: "string \<Rightarrow> string \<Rightarrow> string \<Rightarrow> string \<Rightarrow> bool" where
  "section_at a p c post =
     ((a \<noteq> [] \<longrightarrow> last a = newline)
      \<and> (post \<noteq> [] \<longrightarrow> last (p @ c) = newline \<and> \<not> is_space (hd post))
      \<and> p \<noteq> [] \<and> is_word (hd p)
      \<and> ((\<exists>l'. p = l' @ [newline] \<and> newline \<notin> set l')
          \<or> (newline \<notin> set p \<and> c = [] \<and> post = [])))"

text \<open>
  A text in which some line starts with a word character (the flag tells whether the
  position is at the start of a line), and a text that starts with an empty banner
  declaration, the pattern of the placeholder substitution.
\<close>

fun has_word_start :: "bool \<Rightarrow> string \<Rightarrow> bool" where
  "has_word_start bol [] = False"
| "has_word_start bol (c # cs) = ((bol \<and> is_word c) \<or> has_word_start (c = newline) cs)"

definition banner_match :: "string \<Rightarrow> bool" where
  "banner_match s =
     (prefix ''banner '' s \<and> takeWhile is_word (drop 7 s) \<noteq> []
      \<and> prefix '' ^C^C'' (dropWhile is_word (drop 7 s)))"

section \<open>Example devices\<close>

text \<open>A device with archiving enabled and no rollback pending; every other command answers with the empty text.\<close>

definition ch0 :: channel where
  "ch0 h r = (if r = cmd ''show archive config rollback timer''
              then Inr ''%No Rollback Confirmed Change pending'' else Inr '''')"

text \<open>A channel on which \<^verbatim>\<open>show clock\<close> raises a connection failure.\<close>

definition ch_clock_fails :: channel where
  "ch_clock_fails h r = (if r = cmd ''show clock''
                         then Inl (AnsibleConnectionFailure None ''connection timed out'')
                         else Inr ''ok'')"

text \<open>
  A channel on which \<^verbatim>\<open>show clock\<close> raises a connection failure that carries the
  attribute \<^verbatim>\<open>err\<close>.
\<close>

definition ch_clock_fails_err :: channel where
  "ch_clock_fails_err h r = (if r = cmd ''show clock''
                         then Inl (AnsibleConnectionFailure (Some ''boom'') ''connection timed out'')
                         else Inr ''ok'')"

section \<open>Properties\<close>

subsection \<open>Entering configuration mode\<close>

lemma str_int_5: "str_int 5 = ''5''"
  by (simp add: str_int_def str_nat.simps digit_char_def)

text \<open>
  C1 (as amended). Commit-confirm is configured when \<^verbatim>\<open>commit_confirm_immediate\<close> is set
  or \<^verbatim>\<open>commit_confirm_timeout\<close> is given and not zero; the timeout \<open>t\<close> used is the given
  one, or 1 minute when it is unset or zero. When it is configured and the device answers
  the two \<^verbatim>\<open>show\<close> commands, \<^verbatim>\<open>configure\<close> raises a \<^verbatim>\<open>ValueError\<close> having sent nothing but
  those two commands if \<^verbatim>\<open>persistent_command_timeout\<close> exceeds \<open>t * 60\<close>, if archiving is
  not enabled, or if a rollback is pending; otherwise the one further command it sends is
  \<^verbatim>\<open>configure terminal revert timer t\<close>.
\<close>

theorem configure_commit_confirm_gate:
  assumes conf: "truthy (commit_confirm_timeout opts) \<or> commit_confirm_immediate opts"
    and arch: "ch h (cmd ''show archive'') = Inr archive_state"
    and roll: "ch (h @ [cmd ''show archive''])
                 (cmd ''show archive config rollback timer'') = Inr rollback_state"
    and t: "t = (case commit_confirm_timeout opts of Some n \<Rightarrow> if n \<noteq> 0 then n else 1 | None \<Rightarrow> 1)"
    and h2: "h2 = h @ [cmd ''show archive'', cmd ''show archive config rollback timer'']"
  shows "(pct > t * 60 \<or> search_archive_not_enabled archive_state
            \<or> \<not> search_no_rollback_pending rollback_state
          \<longrightarrow> (\<exists>msg. fst (configure ch opts pct h) = Inl (ValueError msg))
              \<and> snd (configure ch opts pct h) = h2)
       \<and> (\<not> (pct > t * 60 \<or> search_archive_not_enabled archive_state
            \<or> \<not> search_no_rollback_pending rollback_state)
          \<longrightarrow> snd (configure ch opts pct h)
                = h2 @ [cmd (''configure terminal revert timer '' @ str_int t)]
              \<and> fst (configure ch opts pct h)
                = map_sum id (\<lambda>_. ())
                    (ch h2 (cmd (''configure terminal revert timer '' @ str_int t))))"
  using conf arch roll unfolding t h2
  by (auto simp: configure_def send_command_def Let_def split: sum.splits prod.splits)

theorem configure_commit_confirm_gate_witness:
  "(\<exists>msg. fst (configure ch0 \<lparr>commit_confirm_immediate = False, commit_confirm_timeout = Some 5\<rparr> 400 [])
       = Inl (ValueError msg))
   \<and> snd (configure ch0 \<lparr>commit_confirm_immediate = False, commit_confirm_timeout = Some 5\<rparr> 400 [])
       = [cmd ''show archive'', cmd ''show archive config rollback timer'']
   \<and> snd (configure ch0 \<lparr>commit_confirm_immediate = False, commit_confirm_timeout = Some 5\<rparr> 200 [])
       = [cmd ''show archive'', cmd ''show archive config rollback timer'',
          cmd ''configure terminal revert timer 5'']"
proof -
  let ?o = "\<lparr>commit_confirm_immediate = False, commit_confirm_timeout = Some 5\<rparr>"
  have conf: "truthy (commit_confirm_timeout ?o) \<or> commit_confirm_immediate ?o" by simp
  have arch: "ch0 [] (cmd ''show archive'') = Inr ''''" by (simp add: ch0_def cmd_def)
  have roll: "ch0 ([] @ [cmd ''show archive'']) (cmd ''show archive config rollback timer'')
                = Inr ''%No Rollback Confirmed Change pending''" by (simp add: ch0_def)
  have t: "(5::int) = (case commit_confirm_timeout ?o of Some n \<Rightarrow> if n \<noteq> 0 then n else 1 | None \<Rightarrow> 1)"
    by simp
  have nd: "\<not> search_archive_not_enabled ''''" by simp
  have np: "search_no_rollback_pending ''%No Rollback Confirmed Change pending''"
    by (simp add: search_no_rollback_pending_def)
  note g = configure_commit_confirm_gate [OF conf arch roll t refl]
  from g [of 400] g [of 200] nd np show ?thesis by (simp add: str_int_5)
qed

text \<open>
  C1 as stated fails for a timeout given as zero: with \<^verbatim>\<open>commit_confirm_timeout=0\<close> and
  \<^verbatim>\<open>persistent_command_timeout=30\<close>, which exceeds \<open>0 * 60\<close>, no error is raised and the plain
  \<^verbatim>\<open>configure terminal\<close> is sent.
\<close>

theorem configure_zero_timeout_counterexample:
  "(30::int) > 0 * 60 \<and> configure (\<lambda>h r. Inr '''') \<lparr>commit_confirm_immediate = False, commit_confirm_timeout = Some 0\<rparr> 30 []
     = (Inr (), [cmd ''configure terminal''])"
  by (simp add: configure_def send_command_def)

subsection \<open>Applying commands\<close>

lemma length_spec_responses: "length (spec_responses ch h rs) = length rs"
  by (induction rs arbitrary: h) auto

lemma send_lines_reliable:
  assumes "reliable ch" and "\<forall>l \<in> set ls. well_formed_line l"
  shows "send_lines ch ls requests results h =
           (Inr (requests @ map command_of (filter (\<lambda>l. \<not> skipped l) ls),
                 results @ spec_responses ch h (map line_kwargs (filter (\<lambda>l. \<not> skipped l) ls))),
            h @ map line_kwargs (filter (\<lambda>l. \<not> skipped l) ls))"
  using assms(2)
proof (induction ls arbitrary: requests results h)
  case Nil
  then show ?case by simp
next
  case (Cons l ls)
  from Cons.prems obtain c where c: "map_of (line_kwargs l) ''command'' = Some c" "c \<noteq> []"
    by (auto simp: well_formed_line_def)
  from assms(1) obtain out where out: "ch h (line_kwargs l) = Inr out"
    by (auto simp: reliable_def)
  from Cons.prems have rest: "\<forall>l \<in> set ls. well_formed_line l" by simp
  obtain c0 cs where cc: "c = c0 # cs" using c(2) by (cases c) auto
  show ?case
    using c out cc Cons.IH [OF rest]
    by (simp add: skipped_def command_of_def send_command_def)
qed

lemma edit_config_sends:
  assumes "check candidate True = None"
    and "configure ch opts pct h = (Inr (), h1)"
    and "reliable ch"
    and "\<forall>l \<in> set candidate. well_formed_line l"
    and "kept = filter (\<lambda>l. \<not> skipped l) candidate"
  shows "edit_config ch check opts pct candidate True h =
           (Inr (map command_of kept, spec_responses ch h1 (map line_kwargs kept)),
            h1 @ map line_kwargs kept @ [cmd ''end'']
               @ (if commit_confirm_immediate opts then [cmd ''configure confirm''] else []))"
proof -
  from assms(3) have r: "\<And>h r. \<exists>out. ch h r = Inr out" by (simp add: reliable_def)
  obtain o1 where o1: "ch (h1 @ map line_kwargs kept) (cmd ''end'') = Inr o1" using r by blast
  obtain o2 where o2: "ch (h1 @ map line_kwargs kept @ [cmd ''end'']) (cmd ''configure confirm'') = Inr o2"
    using r by blast
  show ?thesis
    using assms(1,2) o1 o2
    by (simp add: edit_config_def send_lines_reliable [OF assms(3,4)] assms(5) [symmetric]
        send_command_def)
qed

text \<open>
  With \<^verbatim>\<open>commit=False\<close> the call raises having sent nothing; when the capability check
  passes the exception is the \<^verbatim>\<open>ValueError\<close> for check mode.
\<close>

lemma edit_config_check_mode:
  "\<exists>e. edit_config ch check opts pct candidate False h = (Inl e, h)
       \<and> (check candidate False = None \<longrightarrow> e = ValueError ''check mode is not supported'')"
  by (simp add: edit_config_def split: option.splits)

text \<open>A line with a non-empty command is skipped or sent; the test does not raise.\<close>

lemma send_lines_step_total:
  assumes "map_of (line_kwargs l) ''command'' = Some c" and "c \<noteq> []"
  shows "send_lines ch [l] requests results h =
           (if c = ''end'' \<or> hd c = CHR ''!'' then (Inr (requests, results), h)
            else case ch h (line_kwargs l) of
                   Inl e \<Rightarrow> (Inl e, h @ [line_kwargs l])
                 | Inr out \<Rightarrow> (Inr (requests @ [c], results @ [out]), h @ [line_kwargs l]))"
  using assms by (cases c) (auto simp: send_command_def split: sum.splits)

text \<open>
  C5. The claim holds for lines whose command is not empty (\<open>edit_config_sends\<close>), and
  fails on the empty command: \<^verbatim>\<open>edit_config([""], commit=True)\<close> enters configuration mode
  and then raises \<^verbatim>\<open>IndexError\<close> from \<^verbatim>\<open>cmd[0]\<close>; the line is neither skipped nor sent and
  \<^verbatim>\<open>end\<close> is not sent.
\<close>

theorem edit_config_empty_command_bug:
  "edit_config ch0 (\<lambda>c b. None) \<lparr>commit_confirm_immediate = False, commit_confirm_timeout = None\<rparr>
       30 [Str ''''] True []
     = (Inl (IndexError ''string index out of range''), [cmd ''configure terminal''])"
  by (simp add: edit_config_def configure_def send_command_def ch0_def cmd_def)

text \<open>
  C9. When the capability check passes, configuration mode is entered and the channel
  answers, a candidate whose first line with an empty command is \<open>l\<close>, after lines \<open>pre\<close>
  with non-empty commands, makes \<^verbatim>\<open>edit_config\<close> raise \<^verbatim>\<open>IndexError\<close>: the lines of \<open>pre\<close>
  that are not skipped have been sent, \<open>l\<close> is neither skipped nor sent, and nothing
  follows.
\<close>

theorem edit_config_empty_command:
  assumes "check candidate True = None"
    and "configure ch opts pct h = (Inr (), h1)"
    and "reliable ch"
    and "candidate = pre @ [l] @ post"
    and "\<forall>l \<in> set pre. well_formed_line l"
    and "map_of (line_kwargs l) ''command'' = Some []"
  shows "edit_config ch check opts pct candidate True h =
           (Inl (IndexError ''string index out of range''),
            h1 @ map line_kwargs (filter (\<lambda>l. \<not> skipped l) pre))"
proof -
  have step: "send_lines ch (l # post) requests results h' =
                (Inl (IndexError ''string index out of range''), h')" for requests results h'
    using assms(6) by simp
  have "send_lines ch (pre @ l # post) requests results h' =
          (Inl (IndexError ''string index out of range''),
           h' @ map line_kwargs (filter (\<lambda>l. \<not> skipped l) pre))" for requests results h'
    using assms(5)
  proof (induction pre arbitrary: requests results h')
    case Nil
    then show ?case using step by simp
  next
    case (Cons a pre)
    from Cons.prems obtain c where c: "map_of (line_kwargs a) ''command'' = Some c" "c \<noteq> []"
      by (auto simp: well_formed_line_def)
    from assms(3) obtain out where out: "ch h' (line_kwargs a) = Inr out"
      by (auto simp: reliable_def)
    obtain c0 cs where cc: "c = c0 # cs" using c(2) by (cases c) auto
    from Cons.prems have rest: "\<forall>l \<in> set pre. well_formed_line l" by simp
    show ?case using c out cc Cons.IH [OF rest]
      by (simp add: skipped_def command_of_def send_command_def)
  qed
  then show ?thesis using assms(1,2,4) by (simp add: edit_config_def)
qed

theorem edit_config_empty_command_witness:
  "edit_config ch0 (\<lambda>c b. None) \<lparr>commit_confirm_immediate = False, commit_confirm_timeout = None\<rparr>
       30 [Str ''hostname R1'', Str ''!'', Str '''', Str ''end''] True []
     = (Inl (IndexError ''string index out of range''),
        [cmd ''configure terminal'', cmd ''hostname R1''])"
proof -
  let ?o = "\<lparr>commit_confirm_immediate = False, commit_confirm_timeout = None\<rparr>"
  let ?check = "\<lambda>(c :: line list) (b :: bool). None :: error option"
  let ?pre = "[Str ''hostname R1'', Str ''!'']"
  have 1: "?check (?pre @ [Str ''''] @ [Str ''end'']) True = None" by simp
  have 2: "configure ch0 ?o 30 [] = (Inr (), [cmd ''configure terminal''])"
    by (simp add: configure_def send_command_def ch0_def cmd_def)
  have 3: "reliable ch0" by (simp add: reliable_def ch0_def)
  have 5: "\<forall>l \<in> set ?pre. well_formed_line l" by (simp add: well_formed_line_def cmd_def)
  have 6: "map_of (line_kwargs (Str '''')) ''command'' = Some []" by (simp add: cmd_def)
  from edit_config_empty_command [OF 1 2 3 refl 5 6]
  show ?thesis by (simp add: skipped_def command_of_def cmd_def)
qed

subsection \<open>Uploading a macro\<close>

text \<open>
  C10. When the capability check passes and \<^verbatim>\<open>config terminal\<close> is answered,
  \<^verbatim>\<open>edit_macro(candidate, commit=True)\<close> leaves the caller's list without its first element
  (the macro header) and without its last element (the delimiter): only the body lines
  remain, whatever happens to the later sends.
\<close>

theorem edit_macro_mutates_candidate:
  assumes "check candidate True = None"
    and "ch h (cmd ''config terminal'') = Inr out"
    and "candidate = header # body @ [multiline_delimiter]"
  shows "snd (snd (edit_macro ch check candidate True h)) = body"
  using assms
  by (simp add: edit_macro_def send_command_def Let_def butlast_append
           split: sum.splits prod.splits)

theorem edit_macro_mutates_candidate_witness:
  "snd (snd (edit_macro ch0 (\<lambda>c b. None) [''macro name m'', ''a'', ''b'', ''@''] True []))
     = [''a'', ''b'']"
  using edit_macro_mutates_candidate [of "\<lambda>c b. None" "[''macro name m'', ''a'', ''b'', ''@'']"
          ch0 "[]" "''''" "''macro name m''" "[''a'', ''b'']" "''@''"]
  by (simp add: ch0_def cmd_def)

lemma edit_macro_candidate_general:
  assumes "check candidate True = None"
    and "ch h (cmd ''config terminal'') = Inr out"
  shows "snd (snd (edit_macro ch check candidate True h)) = butlast (tl candidate)"
  using assms
  by (simp add: edit_macro_def send_command_def Let_def
           split: sum.splits prod.splits list.splits)

subsection \<open>Running commands\<close>

lemma length_inline_responses: "length (inline_responses ch h rs) = length rs"
  by (induction rs arbitrary: h) auto

lemma run_loop_suppress:
  assumes "only_connection_failures ch" and "\<forall>l \<in> set ls. no_output l"
  shows "run_loop ch False ls responses h =
           (Inr (responses @ inline_responses ch h (map request_of ls)), h @ map request_of ls)"
  using assms(2)
proof (induction ls arbitrary: responses h)
  case Nil
  then show ?case by simp
next
  case (Cons l ls)
  from Cons.prems have no: "no_output l" and rest: "\<forall>l \<in> set ls. no_output l" by simp_all
  obtain outp kw where p: "pop_key ''output'' (line_kwargs l) = (outp, kw)"
    by (cases "pop_key ''output'' (line_kwargs l)")
  from no p have f: "\<not> truthy_str outp" and kw: "request_of l = kw"
    by (simp_all add: no_output_def request_of_def)
  show ?case
  proof (cases "ch h kw")
    case (Inr out)
    then show ?thesis using p f kw Cons.IH [OF rest]
      by (simp add: send_command_def)
  next
    case (Inl e)
    with assms(1) have "is_connection_failure e"
      unfolding only_connection_failures_def by blast
    then obtain err message where e: "e = AnsibleConnectionFailure err message"
      by (cases e) auto
    then show ?thesis using Inl p f kw Cons.IH [OF rest]
      by (simp add: send_command_def)
  qed
qed

lemma run_loop_propagate:
  assumes "\<forall>l \<in> set pre. no_output l" and "no_output l"
    and "\<forall>i < length pre. \<exists>out. ch (h @ map request_of (take i pre)) (request_of (pre ! i)) = Inr out"
    and "ch (h @ map request_of pre) (request_of l) = Inl (AnsibleConnectionFailure err message)"
  shows "run_loop ch True (pre @ l # post) responses h =
           (Inl (AnsibleConnectionFailure err message), h @ map request_of pre @ [request_of l])"
  using assms(1,3,4)
proof (induction pre arbitrary: responses h)
  case Nil
  obtain outp kw where p: "pop_key ''output'' (line_kwargs l) = (outp, kw)"
    by (cases "pop_key ''output'' (line_kwargs l)")
  from assms(2) p have f: "\<not> truthy_str outp" and kw: "request_of l = kw"
    by (simp_all add: no_output_def request_of_def)
  from Nil show ?case using p f kw by (simp add: send_command_def)
next
  case (Cons a pre)
  obtain outp kw where p: "pop_key ''output'' (line_kwargs a) = (outp, kw)"
    by (cases "pop_key ''output'' (line_kwargs a)")
  from Cons.prems(1) p have f: "\<not> truthy_str outp" and kw: "request_of a = kw"
    by (simp_all add: no_output_def request_of_def)
  from Cons.prems(2) [rule_format, of 0] obtain out where out: "ch h kw = Inr out"
    using kw by auto
  have rest: "\<forall>l \<in> set pre. no_output l" using Cons.prems(1) by simp
  have succ: "\<forall>i < length pre. \<exists>out. ch ((h @ [kw]) @ map request_of (take i pre)) (request_of (pre ! i)) = Inr out"
  proof (intro allI impI)
    fix i assume "i < length pre"
    then show "\<exists>out. ch ((h @ [kw]) @ map request_of (take i pre)) (request_of (pre ! i)) = Inr out"
      using Cons.prems(2) [rule_format, of "Suc i"] kw by simp
  qed
  have fail: "ch ((h @ [kw]) @ map request_of pre) (request_of l) = Inl (AnsibleConnectionFailure err message)"
    using Cons.prems(3) kw by simp
  show ?case using p f out kw Cons.IH [OF rest succ fail]
    by (simp add: send_command_def)
qed

lemma inline_responses_nth:
  "i < length rs \<Longrightarrow>
     inline_responses ch h rs ! i =
       (case ch (h @ take i rs) (rs ! i) of
          Inr out \<Rightarrow> out
        | Inl (AnsibleConnectionFailure (Some err) message) \<Rightarrow> err
        | Inl (AnsibleConnectionFailure None message) \<Rightarrow> message
        | Inl _ \<Rightarrow> [])"
proof (induction rs arbitrary: h i)
  case Nil
  then show ?case by simp
next
  case (Cons r rs)
  show ?case
  proof (cases i)
    case 0
    then show ?thesis
      by (auto split: sum.splits error.splits option.splits)
  next
    case (Suc j)
    with Cons.prems have "j < length rs" by simp
    from Cons.IH [OF this, of "h @ [r]"] Suc show ?thesis by simp
  qed
qed

text \<open>
  C6 (as amended). For commands that ask for no output format: with \<^verbatim>\<open>check_rc=True\<close>,
  when the commands before \<open>l\<close> are answered and the channel raises a connection failure on
  \<open>l\<close>, \<^verbatim>\<open>run_commands\<close> raises that same failure; with \<^verbatim>\<open>check_rc=False\<close>, on a channel
  whose only exceptions are connection failures, it returns one response per command, and
  the response of a command that failed is the attribute \<^verbatim>\<open>err\<close> of the failure when it
  has one and the message text of the failure otherwise.
\<close>

theorem run_commands_check_rc:
  assumes "\<forall>l \<in> set cs. no_output l"
  shows "(cs = pre @ l # post
            \<and> (\<forall>i < length pre. \<exists>out.
                  ch (h @ map request_of (take i pre)) (request_of (pre ! i)) = Inr out)
            \<and> ch (h @ map request_of pre) (request_of l)
                  = Inl (AnsibleConnectionFailure err message)
          \<longrightarrow> fst (run_commands ch (Some cs) True h) = Inl (AnsibleConnectionFailure err message))
       \<and> (only_connection_failures ch
          \<longrightarrow> (\<exists>responses. fst (run_commands ch (Some cs) False h) = Inr responses
                 \<and> length responses = length cs
                 \<and> (\<forall>i < length cs. responses ! i =
                       (case ch (h @ map request_of (take i cs)) (request_of (cs ! i)) of
                          Inr out \<Rightarrow> out
                        | Inl (AnsibleConnectionFailure (Some err) message) \<Rightarrow> err
                        | Inl (AnsibleConnectionFailure None message) \<Rightarrow> message
                        | Inl _ \<Rightarrow> []))))"
proof (intro conjI impI)
  assume a: "cs = pre @ l # post
            \<and> (\<forall>i < length pre. \<exists>out.
                  ch (h @ map request_of (take i pre)) (request_of (pre ! i)) = Inr out)
            \<and> ch (h @ map request_of pre) (request_of l)
                  = Inl (AnsibleConnectionFailure err message)"
  with assms have "\<forall>l \<in> set pre. no_output l" "no_output l" by auto
  from run_loop_propagate [OF this] a
  show "fst (run_commands ch (Some cs) True h) = Inl (AnsibleConnectionFailure err message)"
    by (simp add: run_commands_def)
next
  assume "only_connection_failures ch"
  from run_loop_suppress [OF this assms]
  have r: "fst (run_commands ch (Some cs) False h) = Inr (inline_responses ch h (map request_of cs))"
    by (simp add: run_commands_def)
  have n: "\<forall>i < length cs. inline_responses ch h (map request_of cs) ! i =
                       (case ch (h @ map request_of (take i cs)) (request_of (cs ! i)) of
                          Inr out \<Rightarrow> out
                        | Inl (AnsibleConnectionFailure (Some err) message) \<Rightarrow> err
                        | Inl (AnsibleConnectionFailure None message) \<Rightarrow> message
                        | Inl _ \<Rightarrow> [])"
  proof (intro allI impI)
    fix i assume "i < length cs"
    then show "inline_responses ch h (map request_of cs) ! i =
                       (case ch (h @ map request_of (take i cs)) (request_of (cs ! i)) of
                          Inr out \<Rightarrow> out
                        | Inl (AnsibleConnectionFailure (Some err) message) \<Rightarrow> err
                        | Inl (AnsibleConnectionFailure None message) \<Rightarrow> message
                        | Inl _ \<Rightarrow> [])"
      using inline_responses_nth [of i "map request_of cs" ch h] by (simp add: take_map)
  qed
  from r n show "\<exists>responses. fst (run_commands ch (Some cs) False h) = Inr responses
                 \<and> length responses = length cs
                 \<and> (\<forall>i < length cs. responses ! i =
                       (case ch (h @ map request_of (take i cs)) (request_of (cs ! i)) of
                          Inr out \<Rightarrow> out
                        | Inl (AnsibleConnectionFailure (Some err) message) \<Rightarrow> err
                        | Inl (AnsibleConnectionFailure None message) \<Rightarrow> message
                        | Inl _ \<Rightarrow> []))"
    by (simp add: length_inline_responses)
qed

theorem run_commands_check_rc_witness:
  "fst (run_commands ch_clock_fails (Some [Str ''show clock'']) False [])
     = Inr [''connection timed out'']
   \<and> fst (run_commands ch_clock_fails_err (Some [Str ''show version'', Str ''show clock'']) False [])
     = Inr [''ok'', ''boom'']
   \<and> fst (run_commands ch_clock_fails (Some [Str ''show version'', Str ''show clock'']) True [])
     = Inl (AnsibleConnectionFailure None ''connection timed out'')"
proof -
  let ?one = "[Str ''show clock'']"
  let ?two = "[Str ''show version'', Str ''show clock'']"
  have no1: "\<forall>l \<in> set ?one. no_output l"
    by (simp add: no_output_def pop_key_def cmd_def)
  have no2: "\<forall>l \<in> set ?two. no_output l"
    by (simp add: no_output_def pop_key_def cmd_def)
  have only: "only_connection_failures ch_clock_fails"
    by (simp add: only_connection_failures_def ch_clock_fails_def)
  have only_err: "only_connection_failures ch_clock_fails_err"
    by (simp add: only_connection_failures_def ch_clock_fails_err_def)
  have reqs: "request_of (Str ''show clock'') = cmd ''show clock''"
      "request_of (Str ''show version'') = cmd ''show version''"
    by (simp_all add: request_of_def pop_key_def cmd_def)
  have a: "fst (run_commands ch_clock_fails (Some ?one) False []) = Inr [''connection timed out'']"
  proof -
    from run_commands_check_rc [OF no1, of "[]" "Str ''show clock''" "[]" ch_clock_fails "[]"
        None "''''", THEN conjunct2, rule_format, OF only]
    obtain responses where
      r: "fst (run_commands ch_clock_fails (Some ?one) False []) = Inr responses"
      and len: "length responses = length ?one"
      and nth: "\<forall>i < length ?one. responses ! i =
                       (case ch_clock_fails ([] @ map request_of (take i ?one)) (request_of (?one ! i)) of
                          Inr out \<Rightarrow> out
                        | Inl (AnsibleConnectionFailure (Some err) message) \<Rightarrow> err
                        | Inl (AnsibleConnectionFailure None message) \<Rightarrow> message
                        | Inl _ \<Rightarrow> [])"
      by blast
    from nth [rule_format, of 0] have "responses ! 0 = ''connection timed out''"
      by (simp add: reqs ch_clock_fails_def)
    with len have "responses = [''connection timed out'']"
      by (cases responses) auto
    with r show ?thesis by simp
  qed
  have b: "fst (run_commands ch_clock_fails_err (Some ?two) False []) = Inr [''ok'', ''boom'']"
  proof -
    from run_commands_check_rc [OF no2, of "[]" "Str ''show clock''" "[]" ch_clock_fails_err "[]"
        None "''''", THEN conjunct2, rule_format, OF only_err]
    obtain responses where
      r: "fst (run_commands ch_clock_fails_err (Some ?two) False []) = Inr responses"
      and len: "length responses = length ?two"
      and nth: "\<forall>i < length ?two. responses ! i =
                       (case ch_clock_fails_err ([] @ map request_of (take i ?two)) (request_of (?two ! i)) of
                          Inr out \<Rightarrow> out
                        | Inl (AnsibleConnectionFailure (Some err) message) \<Rightarrow> err
                        | Inl (AnsibleConnectionFailure None message) \<Rightarrow> message
                        | Inl _ \<Rightarrow> [])"
      by blast
    from nth [rule_format, of 0] have 0: "responses ! 0 = ''ok''"
      by (simp add: reqs ch_clock_fails_err_def cmd_def)
    from nth [rule_format, of 1] have 1: "responses ! 1 = ''boom''"
      by (simp add: reqs ch_clock_fails_err_def)
    from len obtain x y where "responses = [x, y]"
      by (cases responses; cases "tl responses") auto
    with 0 1 have "responses = [''ok'', ''boom'']" by simp
    with r show ?thesis by simp
  qed
  have ans: "\<forall>i < length [Str ''show version'']. \<exists>out.
                  ch_clock_fails ([] @ map request_of (take i [Str ''show version'']))
                    (request_of ([Str ''show version''] ! i)) = Inr out"
    by (simp add: reqs ch_clock_fails_def cmd_def)
  have fails: "ch_clock_fails ([] @ map request_of [Str ''show version'']) (request_of (Str ''show clock''))
                 = Inl (AnsibleConnectionFailure None ''connection timed out'')"
    by (simp add: reqs ch_clock_fails_def)
  have c: "fst (run_commands ch_clock_fails (Some ?two) True [])
             = Inl (AnsibleConnectionFailure None ''connection timed out'')"
    using run_commands_check_rc [OF no2, of "[Str ''show version'']" "Str ''show clock''" "[]"
        ch_clock_fails "[]" None "''connection timed out''", THEN conjunct1] ans fails
    by simp
  from a b c show ?thesis by (intro conjI)
qed

text \<open>
  C6 as stated fails for a connection failure that carries the attribute \<^verbatim>\<open>err\<close>: the
  response substituted is the value of the attribute, not the message text.
\<close>

theorem run_commands_err_attribute_counterexample:
  "fst (run_commands ch_clock_fails_err (Some [Str ''show clock'']) False []) = Inr [''boom'']
   \<and> ''boom'' \<noteq> ''connection timed out''"
  by (simp add: run_commands_def pop_key_def cmd_def send_command_def ch_clock_fails_err_def)

subsection \<open>Validation of the arguments of the diff\<close>

text \<open>
  C7. \<^verbatim>\<open>get_diff\<close> raises a \<^verbatim>\<open>ValueError\<close> whenever the candidate is absent, whenever
  \<^verbatim>\<open>diff_match\<close> is not one of line, strict, exact, none, and whenever \<^verbatim>\<open>diff_replace\<close> is
  not one of line, block. The outcome is the same for every configuration library,
  running configuration, list of ignored lines and path: nothing of the diff is computed
  first. The capability map is fixed, with \<^verbatim>\<open>supports_generate_diff\<close> set and
  \<^verbatim>\<open>supports_onbox_diff\<close> unset, so an absent candidate is always refused.
\<close>

theorem get_diff_invalid_argument:
  assumes "candidate = None
           \<or> diff_match \<notin> {''line'', ''strict'', ''exact'', ''none''}
           \<or> diff_replace \<notin> {''line'', ''block''}"
  shows "(\<exists>msg. get_diff (nc :: ('a, 'b) network_config) candidate running diff_match diff_ignore_lines path diff_replace
                  = Inl (ValueError msg))
         \<and> get_diff nc candidate running diff_match diff_ignore_lines path diff_replace
             = get_diff (nc' :: ('a, 'b) network_config) candidate running' diff_match diff_ignore_lines' path' diff_replace
         \<and> supports_generate_diff get_device_operations
         \<and> \<not> supports_onbox_diff get_device_operations"
proof -
  have *: "\<exists>msg. \<forall>(nc0 :: ('a, 'b) network_config) running0 ignore0 path0.
             get_diff nc0 candidate running0 diff_match ignore0 path0 diff_replace
               = Inl (ValueError msg)"
  proof (cases "candidate = None")
    case True
    then show ?thesis
      by (simp add: get_diff_def get_device_operations_def Let_def)
  next
    case c: False
    show ?thesis
    proof (cases "diff_match \<in> {''line'', ''strict'', ''exact'', ''none''}")
      case False
      then have "diff_match \<notin> set (values_diff_match get_option_values)"
        by (simp add: get_option_values_def)
      with c show ?thesis
        unfolding get_diff_def Let_def by (intro exI allI) (simp only: if_True if_False simp_thms)
    next
      case m: True
      with c assms have "diff_replace \<notin> {''line'', ''block''}" by blast
      then have "diff_replace \<notin> set (values_diff_replace get_option_values)"
        by (simp add: get_option_values_def)
      moreover from m have "diff_match \<in> set (values_diff_match get_option_values)"
        by (simp add: get_option_values_def)
      ultimately show ?thesis using c
        unfolding get_diff_def Let_def by (intro exI allI) (simp only: if_True if_False simp_thms)
    qed
  qed
  then obtain msg where m: "\<And>(nc0 :: ('a, 'b) network_config) running0 ignore0 path0.
             get_diff nc0 candidate running0 diff_match ignore0 path0 diff_replace
               = Inl (ValueError msg)" by blast
  have ops: "supports_generate_diff get_device_operations
         \<and> \<not> supports_onbox_diff get_device_operations"
    by (simp add: get_device_operations_def)
  from m [of nc] m [of nc'] ops show ?thesis by simp
qed

theorem get_diff_invalid_argument_witness:
  "(\<exists>msg. get_diff spec_network_config None (Some ''hostname a'') ''line'' None None ''line''
            = Inl (ValueError msg))
   \<and> (\<exists>msg. get_diff spec_network_config (Some ''hostname a'') None ''fuzzy'' None None ''line''
            = Inl (ValueError msg))
   \<and> (\<exists>msg. get_diff spec_network_config (Some ''hostname a'') None ''exact'' None None ''config''
            = Inl (ValueError msg))"
  using get_diff_invalid_argument [of None "''line''" "''line''" spec_network_config
          "Some ''hostname a''" None None]
        get_diff_invalid_argument [of "Some ''hostname a''" "''fuzzy''" "''line''"
          spec_network_config None None None]
        get_diff_invalid_argument [of "Some ''hostname a''" "''exact''" "''config''"
          spec_network_config None None None]
  by blast

subsection \<open>Dictionaries of banners\<close>

lemma map_of_dict_set: "map_of (dict_set d k v) k' = (if k' = k then Some v else map_of d k')"
  by (induction d k v rule: dict_set.induct) auto

lemma keys_dict_set: "fst ` set (dict_set d k v) = insert k (fst ` set d)"
  by (induction d k v rule: dict_set.induct) auto

lemma distinct_dict_set: "distinct (map fst d) \<Longrightarrow> distinct (map fst (dict_set d k v))"
proof (induction d k v rule: dict_set.induct)
  case (1 k v)
  then show ?case by simp
next
  case (2 k' v' d k v)
  then show ?case using keys_dict_set [of d k v] by (auto simp: image_iff)
qed

lemma map_of_diff_banners_loop:
  assumes "distinct (map fst want)" and "\<forall>k \<in> fst ` set want. map_of acc k = None"
  shows "map_of (diff_banners_loop want have acc) k =
           (if k \<in> fst ` set want then
              (if map_of want k \<noteq> map_of have k then map_of want k else None)
            else map_of acc k)"
  using assms
proof (induction want "have" acc rule: diff_banners_loop.induct)
  case (1 "have" candidate)
  then show ?case by simp
next
  case (2 key val want "have" candidate)
  from "2.prems" have d: "distinct (map fst want)" and nk: "key \<notin> fst ` set want" by auto
  have acc': "\<forall>k \<in> fst ` set want. map_of (dict_set candidate key val) k = None"
    using "2.prems" nk by (auto simp: map_of_dict_set)
  have acc: "\<forall>k \<in> fst ` set want. map_of candidate k = None" using "2.prems" by auto
  show ?case
  proof (cases "Some val \<noteq> map_of have key")
    case True
    with "2.IH"(1) [OF True d acc'] nk "2.prems" show ?thesis
      by (auto simp: map_of_dict_set)
  next
    case False
    with "2.IH"(2) [OF _ d acc] nk "2.prems" show ?thesis
      by (auto simp: image_iff)
  qed
qed

lemma map_of_diff_banners:
  assumes "distinct (map fst want)"
  shows "map_of (diff_banners want have) k =
           (if map_of want k \<noteq> map_of have k then map_of want k else None)"
proof -
  have "k \<notin> fst ` set want \<Longrightarrow> map_of want k = None"
    by (simp add: map_of_eq_None_iff)
  then show ?thesis
    using map_of_diff_banners_loop [OF assms, of "[]" "have" k]
    by (auto simp: diff_banners_def)
qed

lemma distinct_collect_banners:
  "distinct (map fst acc) \<Longrightarrow> distinct (map fst (collect_banners config names acc))"
  by (induction config names acc rule: collect_banners.induct)
     (auto simp: distinct_dict_set split: option.splits)

lemma distinct_extract_banners: "distinct (map fst (snd (extract_banners config)))"
  by (simp add: extract_banners_def Let_def distinct_collect_banners)

subsection \<open>The banner diff\<close>

text \<open>
  C4 (as amended). When \<^verbatim>\<open>get_diff\<close> returns, in the branch of the exact match without a
  path on a candidate with a top-level section no banner is extracted and \<^verbatim>\<open>banner_diff\<close>
  is empty. In every other case banners are extracted from the candidate (after its
  blank-line substitution), and from the running text when it is not empty and the match
  is not \<^verbatim>\<open>none\<close> (the running banners are empty otherwise); \<^verbatim>\<open>banner_diff\<close> then has
  exactly the keys of the candidate's banners whose body differs from the running body
  under the key, a key absent in the running banners counting as differing, each with the
  candidate's body.
\<close>

theorem get_diff_banner_diff:
  assumes "get_diff nc (Some candidate) running diff_match diff_ignore_lines path diff_replace = Inr d"
    and "want = snd (extract_banners (sub_blank_lines candidate))"
    and "have = (if running \<noteq> None \<and> running \<noteq> Some [] \<and> diff_match \<noteq> ''none''
                 then snd (extract_banners (case running of Some r \<Rightarrow> r | None \<Rightarrow> []))
                 else [])"
  shows "(findall_cand_pattern (sub_blank_lines candidate) \<noteq> []
            \<and> (path = None \<or> path = Some []) \<and> diff_match = ''exact''
          \<longrightarrow> banner_diff d = [])
       \<and> (\<not> (findall_cand_pattern (sub_blank_lines candidate) \<noteq> []
            \<and> (path = None \<or> path = Some []) \<and> diff_match = ''exact'')
          \<longrightarrow> (\<forall>key. map_of (banner_diff d) key
                     = (if map_of want key \<noteq> map_of have key then map_of want key else None)))"
proof (intro conjI impI)
  assume "findall_cand_pattern (sub_blank_lines candidate) \<noteq> []
            \<and> (path = None \<or> path = Some []) \<and> diff_match = ''exact''"
  with assms(1) show "banner_diff d = []"
    by (auto simp: get_diff_def Let_def split: if_splits sum.splits)
next
  assume general: "\<not> (findall_cand_pattern (sub_blank_lines candidate) \<noteq> []
            \<and> (path = None \<or> path = Some []) \<and> diff_match = ''exact'')"
  have dist: "distinct (map fst want)"
    unfolding assms(2) by (rule distinct_extract_banners)
  from assms(1) general have "banner_diff d = diff_banners want have"
    unfolding assms(2,3) get_diff_def Let_def
    by (auto split: if_splits sum.splits prod.splits option.splits)
  then show "\<forall>key. map_of (banner_diff d) key
                     = (if map_of want key \<noteq> map_of have key then map_of want key else None)"
    using map_of_diff_banners [OF dist] by simp
qed

theorem get_diff_banner_diff_witness:
  "get_diff spec_network_config (Some ''banner motd ^C\<newline>hello\<newline>^C\<newline>hostname a'')
       (Some ''banner motd ^C\<newline>bye\<newline>^C'') ''line'' None None ''line''
     = Inr \<lparr>config_diff = ''hostname a'', banner_diff = [(''banner motd'', ''hello'')]\<rparr>
   \<and> (\<forall>key. map_of (banner_diff \<lparr>config_diff = ''hostname a'',
                                   banner_diff = [(''banner motd'', ''hello'')]\<rparr>) key
              = (if key = ''banner motd'' then Some ''hello'' else None))"
proof -
  let ?c = "''banner motd ^C\<newline>hello\<newline>^C\<newline>hostname a''"
  let ?r = "''banner motd ^C\<newline>bye\<newline>^C''"
  let ?d = "\<lparr>config_diff = ''hostname a'', banner_diff = [(''banner motd'', ''hello'')]\<rparr>"
  have run: "get_diff spec_network_config (Some ?c) (Some ?r) ''line'' None None ''line'' = Inr ?d"
    by code_simp
  have want: "snd (extract_banners (sub_blank_lines ?c)) = [(''banner motd'', ''hello'')]"
    by code_simp
  have hav: "snd (extract_banners ?r) = [(''banner motd'', ''bye'')]"
    by code_simp
  have general: "\<not> (findall_cand_pattern (sub_blank_lines ?c) \<noteq> []
            \<and> ((None :: string list option) = None \<or> (None :: string list option) = Some [])
            \<and> ''line'' = ''exact'')"
  proof
    assume "findall_cand_pattern (sub_blank_lines ?c) \<noteq> []
            \<and> ((None :: string list option) = None \<or> (None :: string list option) = Some [])
            \<and> ''line'' = ''exact''"
    then have "''line'' = ''exact''" by (elim conjE)
    then show False by simp
  qed
  have cond: "(Some ?r \<noteq> None \<and> Some ?r \<noteq> Some [] \<and> ''line'' \<noteq> ''none'') = True"
    by simp
  note inst = get_diff_banner_diff [OF run refl refl, THEN conjunct2, rule_format, OF general]
  have keys: "map_of (banner_diff ?d) key
          = (if map_of [(''banner motd'', ''hello'')] key \<noteq> map_of [(''banner motd'', ''bye'')] key
             then map_of [(''banner motd'', ''hello'')] key else None)" for key
    using inst [of key] unfolding want cond if_True option.case hav .
  have "\<forall>key. map_of (banner_diff ?d) key
              = (if key = ''banner motd'' then Some ''hello'' else None)"
  proof
    fix key
    show "map_of (banner_diff ?d) key = (if key = ''banner motd'' then Some ''hello'' else None)"
      unfolding keys by (cases "key = ''banner motd''") simp_all
  qed
  then show ?thesis using run by (intro conjI)
qed

text \<open>
  C4 as stated fails in the branch of the exact match: the candidate declares the banner
  \<^verbatim>\<open>motd\<close> with the body \<^verbatim>\<open>hello\<close>, the running configuration is absent, and the banner
  diff returned is empty although the diff of the extracted banners has the key.
\<close>

theorem get_diff_exact_banner_counterexample:
  "map_sum id banner_diff
     (get_diff spec_network_config (Some ''banner motd ^C\<newline>hello\<newline>^C'') None ''exact'' None None
        ''line'') = Inr []
   \<and> diff_banners (snd (extract_banners ''banner motd ^C\<newline>hello\<newline>^C''))
        (snd (extract_banners [])) = [(''banner motd'', ''hello'')]"
  by code_simp

subsection \<open>The exact match without a path\<close>

text \<open>
  The loop over the sections appends, for each section in the order of the candidate, the
  negations followed by the additions of that section; a section whose blocks agree adds
  nothing.
\<close>

lemma section_diff_blocks:
  assumes "have_block nc running diff_ignore_lines s = Inr have_lines"
    and "want_block nc s = Inr want_lines"
  shows "section_diff nc running diff_ignore_lines s
           = Inr (negates_loop nc want_lines have_lines [] []
                  @ wants_loop nc have_lines want_lines [])"
  using assms
  by (auto simp: section_diff_def have_block_def want_block_def Let_def
           split: sum.splits error.splits)

lemma sections_loop_concat:
  assumes "list_all2 (\<lambda>s d. section_diff nc running diff_ignore_lines s = Inr d) sections ds"
  shows "sections_loop nc running diff_ignore_lines sections acc
           = Inr (acc @ concat ds)"
  using assms
  by (induction sections ds arbitrary: acc rule: list_all2_induct) auto

lemma sections_loop_returns:
  assumes "sections_loop nc running diff_ignore_lines sections acc = Inr out"
  shows "\<exists>ds. list_all2 (\<lambda>s d. section_diff nc running diff_ignore_lines s = Inr d) sections ds
              \<and> out = acc @ concat ds"
  using assms
proof (induction sections arbitrary: acc)
  case Nil
  then show ?case by simp
next
  case (Cons s sections)
  from Cons.prems obtain d where d: "section_diff nc running diff_ignore_lines s = Inr d"
    and rest: "sections_loop nc running diff_ignore_lines sections (acc @ d) = Inr out"
    by (auto split: sum.splits)
  from Cons.IH [OF rest] obtain ds where
    "list_all2 (\<lambda>s d. section_diff nc running diff_ignore_lines s = Inr d) sections ds"
    "out = (acc @ d) @ concat ds" by blast
  with d have "list_all2 (\<lambda>s d. section_diff nc running diff_ignore_lines s = Inr d)
                 (s # sections) (d # ds) \<and> out = acc @ concat (d # ds)"
    by simp
  then show ?case by blast
qed

lemma negates_loop_all_wanted:
  "list_all (\<lambda>l. line_in nc l want_lines) have_lines
    \<Longrightarrow> negates_loop nc want_lines have_lines negates negated_parents = negates"
  by (induction have_lines arbitrary: negates negated_parents) auto

lemma wants_loop_all_present:
  "list_all (\<lambda>l. line_in nc l have_lines) want_lines
    \<Longrightarrow> wants_loop nc have_lines want_lines wants = wants"
  by (induction want_lines arbitrary: wants) auto

lemma section_diff_agree:
  assumes "blocks_agree nc running diff_ignore_lines s"
  shows "section_diff nc running diff_ignore_lines s = Inr []"
proof -
  from assms obtain have_lines want_lines where
    h: "have_block nc running diff_ignore_lines s = Inr have_lines" and
    w: "want_block nc s = Inr want_lines" and
    a: "list_all (\<lambda>l. line_in nc l want_lines) have_lines"
       "list_all (\<lambda>l. line_in nc l have_lines) want_lines"
    by (auto simp: blocks_agree_def split: sum.splits)
  show ?thesis
    using section_diff_blocks [OF h w] negates_loop_all_wanted [OF a(1)]
      wants_loop_all_present [OF a(2)] by simp
qed

lemma sections_loop_agree:
  assumes "list_all (blocks_agree nc running diff_ignore_lines) sections"
  shows "sections_loop nc running diff_ignore_lines sections acc = Inr acc"
  using assms
  by (induction sections arbitrary: acc) (auto simp: section_diff_agree)

lemma get_diff_exact_sections:
  assumes "get_diff nc (Some candidate) running ''exact'' diff_ignore_lines path diff_replace = Inr d"
    and "findall_cand_pattern (sub_blank_lines candidate) \<noteq> []"
    and "path = None \<or> path = Some []"
  shows "\<exists>ds. list_all2 (\<lambda>s x. section_diff nc running diff_ignore_lines s = Inr x)
                 (findall_cand_pattern (sub_blank_lines candidate)) ds
              \<and> config_diff d = rstrip (concat ds)"
proof -
  from assms obtain out where
    out: "sections_loop nc running diff_ignore_lines
            (findall_cand_pattern (sub_blank_lines candidate)) [] = Inr out"
    and d: "d = \<lparr>config_diff = rstrip out, banner_diff = []\<rparr>"
    by (auto simp: get_diff_def Let_def split: if_splits sum.splits)
  from sections_loop_returns [OF out] d show ?thesis by auto
qed

lemma section_diff_running_empty:
  assumes "have_block nc running diff_ignore_lines s = Inr []"
    and "want_block nc s = Inr want_lines"
  shows "section_diff nc running diff_ignore_lines s = Inr (wants_loop nc [] want_lines [])"
  using section_diff_blocks [OF assms] by simp

text \<open>
  C2. The candidate is not always split into one section per top-level line: after the
  substitution that is meant to remove blank lines, a run of two blank lines leaves one
  blank line, which the pattern of the children takes as whitespace together with the
  top-level line that follows. The candidate below has the top-level lines \<^verbatim>\<open>foo\<close> and
  \<^verbatim>\<open>bar\<close> and yields the single section of \<^verbatim>\<open>foo\<close>; with the running configuration absent
  the diff returned does not mention \<^verbatim>\<open>bar\<close>.
\<close>

theorem findall_cand_pattern_blank_lines:
  "findall_cand_pattern (sub_blank_lines ''foo\<newline> x\<newline>\<newline>\<newline>bar\<newline> y'')
     = [(''foo\<newline>'', '' x\<newline>\<newline>bar\<newline> y'')]
   \<and> map_sum id (\<lambda>d. contains (config_diff d) ''bar'')
        (get_diff spec_network_config (Some ''foo\<newline> x\<newline>\<newline>\<newline>bar\<newline> y'') None ''exact''
           None None ''line'')
     = Inr False"
  by code_simp

lemma get_diff_exact_agree:
  assumes "findall_cand_pattern (sub_blank_lines X) \<noteq> []"
    and "list_all (blocks_agree nc (Some X) diff_ignore_lines)
           (findall_cand_pattern (sub_blank_lines X))"
    and "path = None \<or> path = Some []"
    and "diff_replace \<in> {''line'', ''block''}"
  shows "get_diff nc (Some X) (Some X) ''exact'' diff_ignore_lines path diff_replace
           = Inr \<lparr>config_diff = [], banner_diff = []\<rparr>"
proof -
  have m: "''exact'' \<in> set (values_diff_match get_option_values)"
    by (simp add: get_option_values_def)
  have r: "diff_replace \<in> set (values_diff_replace get_option_values)"
    using assms(4) by (simp add: get_option_values_def)
  have e: "rstrip [] = []" by (simp add: rstrip_def)
  show ?thesis
    unfolding get_diff_def Let_def
    using assms(1,3) m r sections_loop_agree [OF assms(2), of "[]"] e
    by (simp only: if_True if_False simp_thms option.simps sum.case HOL.refl)
qed

subsection \<open>Extraction of the banners\<close>

lemma has_empty_banner_Cons: "has_empty_banner cs \<Longrightarrow> has_empty_banner (c # cs)"
proof -
  assume "has_empty_banner cs"
  then obtain pre name post where
    "cs = pre @ ''banner '' @ name @ '' ^C^C'' @ post" "name \<noteq> []" "list_all is_word name"
    unfolding has_empty_banner_def by blast
  then have "c # cs = (c # pre) @ ''banner '' @ name @ '' ^C^C'' @ post
      \<and> name \<noteq> [] \<and> list_all is_word name" by simp
  then show ?thesis unfolding has_empty_banner_def by blast
qed

lemma has_empty_banner_here:
  assumes "prefix ''banner '' s" and "takeWhile is_word (drop 7 s) \<noteq> []"
    and "prefix '' ^C^C'' (dropWhile is_word (drop 7 s))"
  shows "has_empty_banner s"
proof -
  let ?name = "takeWhile is_word (drop 7 s)"
  let ?rest = "dropWhile is_word (drop 7 s)"
  from assms(1) have s: "s = ''banner '' @ drop 7 s"
    by (auto simp: prefix_def)
  from assms(3) have r: "?rest = '' ^C^C'' @ drop 5 ?rest"
    by (auto simp: prefix_def)
  have "drop 7 s = ?name @ ?rest" by simp
  with s r have "s = [] @ ''banner '' @ ?name @ '' ^C^C'' @ drop 5 ?rest"
    by (metis append_Nil)
  moreover have "list_all is_word ?name"
    by (simp add: list_all_iff) (meson set_takeWhileD)
  ultimately show ?thesis
    unfolding has_empty_banner_def using assms(2) by blast
qed

lemma sub_banner_removed_id:
  "\<not> has_empty_banner config \<Longrightarrow> sub_banner_removed config = config"
proof (induction config rule: sub_banner_removed.induct)
  case 1
  then show ?case by simp
next
  case (2 c cs)
  let ?s = "c # cs"
  from "2.prems" have here: "\<not> (prefix ''banner '' ?s \<and> takeWhile is_word (drop 7 ?s) \<noteq> []
      \<and> prefix '' ^C^C'' (dropWhile is_word (drop 7 ?s)))"
    using has_empty_banner_here [of ?s] by blast
  from "2.prems" have rest: "\<not> has_empty_banner cs"
    using has_empty_banner_Cons by blast
  have ih: "sub_banner_removed cs = cs"
    by (rule "2.IH"(2) [OF refl refl here rest])
  show ?case
    by (simp only: sub_banner_removed.simps Let_def here if_False ih)
qed

lemma has_empty_banner_caret: "has_empty_banner config \<Longrightarrow> CHR ''^'' \<in> set config"
  unfolding has_empty_banner_def by auto

lemma banner_names_append:
  "set (banner_names (if pre = [] then bol else last pre = newline) s)
     \<subseteq> set (banner_names bol (pre @ s))"
proof (induction pre arbitrary: bol)
  case Nil
  then show ?case by simp
next
  case (Cons c pre)
  have "set (banner_names (if pre = [] then c = newline else last pre = newline) s)
          \<subseteq> set (banner_names (c = newline) (pre @ s))"
    by (rule Cons.IH)
  then show ?case by auto
qed

lemma takeWhile_word_name:
  assumes "list_all is_word name"
  shows "takeWhile is_word (name @ CHR '' '' # rest) = name"
proof -
  have "\<not> is_word CHR '' ''" by (simp add: is_word_def)
  with assms show ?thesis by (simp add: list_all_iff takeWhile_append)
qed

lemma banner_names_hit:
  assumes "prefix ''banner '' (c # cs)" and "takeWhile is_word (drop 7 (c # cs)) = name"
    and "name \<noteq> []"
  shows "name \<in> set (banner_names True (c # cs))"
  using assms by simp

lemma banner_declared:
  assumes "pre = [] \<or> last pre = newline" and "name \<noteq> []" and "list_all is_word name"
  shows "name \<in> set (findall_banner_cmds (pre @ ''banner '' @ name @ '' ^C'' @ rest))"
proof -
  let ?s = "''anner '' @ name @ '' ^C'' @ rest"
  have tw: "takeWhile is_word (name @ CHR '' '' # CHR ''^'' # CHR ''C'' # rest) = name"
    by (rule takeWhile_word_name [OF assms(3)])
  have p: "prefix ''banner '' (CHR ''b'' # ?s)" by simp
  have d: "takeWhile is_word (drop 7 (CHR ''b'' # ?s)) = name"
    using tw by simp
  have "name \<in> set (banner_names True (CHR ''b'' # ?s))"
    by (rule banner_names_hit [OF p d assms(2)])
  then have hit: "name \<in> set (banner_names True (''banner '' @ name @ '' ^C'' @ rest))" by simp
  have c: "(if pre = [] then True else last pre = newline) = True"
    using assms(1) by auto
  have sub: "set (banner_names True (''banner '' @ name @ '' ^C'' @ rest))
      \<subseteq> set (banner_names True (pre @ ''banner '' @ name @ '' ^C'' @ rest))"
    using banner_names_append [of pre True "''banner '' @ name @ '' ^C'' @ rest"]
    unfolding c .
  from subsetD [OF sub hit] show ?thesis
    unfolding findall_banner_cmds_def .
qed

lemma contains_Cons: "contains (c # cs) p \<longleftrightarrow> prefix p (c # cs) \<or> contains cs p"
  by simp

lemma body_until_delimiter_shortest:
  assumes "body \<noteq> []" and "\<not> contains (tl body) ''^C''"
  shows "body_until_delimiter (body @ ''^C'' @ post) = Some body"
  using assms
proof (induction body)
  case Nil
  then show ?case by simp
next
  case (Cons c cs)
  show ?case
  proof (cases cs)
    case Nil
    then show ?thesis by simp
  next
    case (Cons d ds)
    from Cons.prems(2) Cons have np: "\<not> prefix ''^C'' (d # ds)" and nc: "\<not> contains ds ''^C''"
      by simp_all
    from np have "\<not> prefix ''^C'' ((d # ds) @ ''^C'' @ post)"
      by (cases ds) auto
    moreover have "body_until_delimiter (cs @ ''^C'' @ post) = Some cs"
      using Cons.IH Cons nc by simp
    ultimately show ?thesis using Cons by simp
  qed
qed

lemma search_banner_skip:
  assumes "\<forall>i < length pre. \<not> prefix (''banner '' @ name @ '' ^C'') (drop i (pre @ s))"
  shows "search_banner name (pre @ s) = search_banner name s"
  using assms
proof (induction pre)
  case Nil
  then show ?case by simp
next
  case (Cons c pre)
  from Cons.prems [rule_format, of 0]
  have here: "\<not> prefix (''banner '' @ name @ '' ^C'') (c # pre @ s)" by simp
  have "\<forall>i < length pre. \<not> prefix (''banner '' @ name @ '' ^C'') (drop i (pre @ s))"
  proof (intro allI impI)
    fix i assume "i < length pre"
    then show "\<not> prefix (''banner '' @ name @ '' ^C'') (drop i (pre @ s))"
      using Cons.prems [rule_format, of "Suc i"] by simp
  qed
  from Cons.IH [OF this] have ih: "search_banner name (pre @ s) = search_banner name s" .
  have "search_banner name ((c # pre) @ s) = search_banner name (c # (pre @ s))" by simp
  also have "\<dots> = search_banner name (pre @ s)"
    by (simp only: search_banner.simps here if_False)
  finally show ?case using ih by simp
qed

lemma search_banner_here:
  assumes "body_until_delimiter rest = Some body"
  shows "search_banner name (''banner '' @ name @ '' ^C'' @ rest) = Some body"
proof -
  have "search_banner name (CHR ''b'' # ''anner '' @ name @ '' ^C'' @ rest) = Some body"
    unfolding search_banner.simps using assms by simp
  then show ?thesis by simp
qed

lemma collect_banners_key:
  assumes "search_banner name config = Some body"
    and "name \<in> set names \<or> map_of acc (''banner '' @ name) = Some (strip body)"
  shows "map_of (collect_banners config names acc) (''banner '' @ name) = Some (strip body)"
  using assms(2)
proof (induction names arbitrary: acc)
  case Nil
  then show ?case by simp
next
  case (Cons n names)
  show ?case
  proof (cases "n = name")
    case True
    then show ?thesis using assms(1) Cons.IH [of "dict_set acc (''banner '' @ name) (strip body)"]
      by (simp add: map_of_dict_set)
  next
    case False
    then have keyne: "''banner '' @ name \<noteq> ''banner '' @ n" by simp
    from Cons.prems False
    have p: "name \<in> set names \<or> map_of acc (''banner '' @ name) = Some (strip body)" by auto
    show ?thesis
    proof (cases "search_banner n config")
      case None
      then show ?thesis using Cons.IH [OF p] by simp
    next
      case (Some b)
      have "name \<in> set names
          \<or> map_of (dict_set acc (''banner '' @ n) (strip b)) (''banner '' @ name) = Some (strip body)"
        using p keyne by (auto simp: map_of_dict_set)
      from Cons.IH [OF this] Some show ?thesis by simp
    qed
  qed
qed

text \<open>
  C8 (as amended). For a configuration text in which no line starts with a banner
  declaration and no empty banner declaration occurs, the extraction returns the text
  unchanged and no banner. When the text declares a banner at the start of a line, the
  declaration \<^verbatim>\<open>banner name ^C\<close> does not begin earlier in the text, and it is followed by
  a body and the delimiter, where the body is not empty and has no delimiter after its
  first character, the body is stored trimmed under the key \<^verbatim>\<open>banner name\<close>.
\<close>

theorem extract_banners_spec:
  "(findall_banner_cmds config = [] \<and> \<not> has_empty_banner config
      \<longrightarrow> extract_banners config = (config, []))
   \<and> (config = pre @ ''banner '' @ name @ '' ^C'' @ body @ ''^C'' @ post
        \<and> (pre = [] \<or> last pre = newline)
        \<and> name \<noteq> [] \<and> list_all is_word name
        \<and> (\<forall>i < length pre. \<not> prefix (''banner '' @ name @ '' ^C'') (drop i config))
        \<and> body \<noteq> [] \<and> \<not> contains (tl body) ''^C''
      \<longrightarrow> map_of (snd (extract_banners config)) (''banner '' @ name) = Some (strip body))"
proof (intro conjI impI)
  assume "findall_banner_cmds config = [] \<and> \<not> has_empty_banner config"
  then show "extract_banners config = (config, [])"
    by (simp add: extract_banners_def Let_def sub_banner_removed_id)
next
  assume a: "config = pre @ ''banner '' @ name @ '' ^C'' @ body @ ''^C'' @ post
        \<and> (pre = [] \<or> last pre = newline)
        \<and> name \<noteq> [] \<and> list_all is_word name
        \<and> (\<forall>i < length pre. \<not> prefix (''banner '' @ name @ '' ^C'') (drop i config))
        \<and> body \<noteq> [] \<and> \<not> contains (tl body) ''^C''"
  let ?rest = "body @ ''^C'' @ post"
  from a have config: "config = pre @ ''banner '' @ name @ '' ^C'' @ ?rest" by simp
  from a have declared: "name \<in> set (findall_banner_cmds config)"
    unfolding config by (intro banner_declared) auto
  from a have "body_until_delimiter ?rest = Some body"
    by (intro body_until_delimiter_shortest) auto
  then have "search_banner name (''banner '' @ name @ '' ^C'' @ ?rest) = Some body"
    by (rule search_banner_here)
  moreover from a have "search_banner name (pre @ ''banner '' @ name @ '' ^C'' @ ?rest)
      = search_banner name (''banner '' @ name @ '' ^C'' @ ?rest)"
    by (intro search_banner_skip) (simp add: config)
  ultimately have found: "search_banner name config = Some body"
    unfolding config by simp
  show "map_of (snd (extract_banners config)) (''banner '' @ name) = Some (strip body)"
    using collect_banners_key [OF found, of "findall_banner_cmds config" "[]"] declared
    by (simp add: extract_banners_def Let_def)
qed

theorem extract_banners_spec_witness:
  "extract_banners ''hostname R1\<newline>interface Gi1'' = (''hostname R1\<newline>interface Gi1'', [])
   \<and> map_of (snd (extract_banners ''!\<newline>banner motd ^C\<newline>hello\<newline>^C\<newline>hostname R1''))
        ''banner motd'' = Some ''hello''"
proof -
  let ?c1 = "''hostname R1\<newline>interface Gi1''"
  let ?c2 = "''!\<newline>banner motd ^C\<newline>hello\<newline>^C\<newline>hostname R1''"
  have none: "findall_banner_cmds ?c1 = []" by code_simp
  have "CHR ''^'' \<notin> set ?c1" by simp
  then have noempty: "\<not> has_empty_banner ?c1" using has_empty_banner_caret by blast
  from extract_banners_spec [of ?c1, THEN conjunct1] none noempty
  have first: "extract_banners ?c1 = (?c1, [])" by (simp only: simp_thms)
  have 1: "?c2 = ''!\<newline>'' @ ''banner '' @ ''motd'' @ '' ^C'' @ ''\<newline>hello\<newline>'' @ ''^C'' @ ''\<newline>hostname R1''"
    by simp
  have 2: "''!\<newline>'' = [] \<or> last ''!\<newline>'' = newline" by (simp add: newline_def)
  have 3: "''motd'' \<noteq> []" by simp
  have 4: "list_all is_word ''motd''" by (simp add: is_word_def)
  have 5: "\<forall>i < length ''!\<newline>''. \<not> prefix (''banner '' @ ''motd'' @ '' ^C'') (drop i ?c2)"
    by (simp add: less_Suc_eq)
  have 6: "''\<newline>hello\<newline>'' \<noteq> []" by simp
  have 7: "\<not> contains (tl ''\<newline>hello\<newline>'') ''^C''" by simp
  have s: "strip ''\<newline>hello\<newline>'' = ''hello''" by code_simp
  have hyp: "?c2 = ''!\<newline>'' @ ''banner '' @ ''motd'' @ '' ^C'' @ ''\<newline>hello\<newline>'' @ ''^C'' @ ''\<newline>hostname R1''
        \<and> (''!\<newline>'' = [] \<or> last ''!\<newline>'' = newline)
        \<and> ''motd'' \<noteq> [] \<and> list_all is_word ''motd''
        \<and> (\<forall>i < length ''!\<newline>''. \<not> prefix (''banner '' @ ''motd'' @ '' ^C'') (drop i ?c2))
        \<and> ''\<newline>hello\<newline>'' \<noteq> [] \<and> \<not> contains (tl ''\<newline>hello\<newline>'') ''^C''"
    using 1 2 3 4 5 6 7 by (intro conjI)
  from extract_banners_spec [of ?c2 "''!\<newline>''" "''motd''" "''\<newline>hello\<newline>''" "''\<newline>hostname R1''",
         THEN conjunct2, rule_format, OF hyp]
  have second: "map_of (snd (extract_banners ?c2)) (''banner '' @ ''motd'') = Some ''hello''"
    unfolding s .
  have k: "''banner '' @ ''motd'' = ''banner motd''" by simp
  from first second show ?thesis unfolding k by (intro conjI)
qed

text \<open>
  C8 as stated fails in both parts. A text without any line that declares a banner is
  changed when the pair of a declaration and two delimiters occurs inside a line. And a
  banner with an empty body takes as its body the text up to the next delimiter, here the
  declaration of the banner that follows.
\<close>

theorem extract_banners_counterexample:
  "findall_banner_cmds ''description banner x ^C^C'' = []
   \<and> extract_banners ''description banner x ^C^C'' = (''description !! banner removed'', [])
   \<and> snd (extract_banners ''banner motd ^C^C\<newline>banner login ^Chi^C'')
       = [(''banner motd'', ''^C\<newline>banner login''), (''banner login'', ''hi'')]"
  by code_simp

subsection \<open>Idempotence of the exact match\<close>

text \<open>
  The lemmas below relate the sections found by the pattern in the candidate to the tree
  parsed from the running text: the blank-line substitution does not change the tree, a
  section starts at a root of the tree, and the block of that root in the tree of the
  section is its block in the tree of the whole text.
\<close>

lemma newline_is_space: "is_space newline"
  by (simp add: is_space_def newline_def)

lemma word_not_space: "is_word c \<Longrightarrow> \<not> is_space c"
  by (auto simp: is_word_def is_space_def)

lemma word_not_newline: "is_word c \<Longrightarrow> c \<noteq> newline"
  using word_not_space newline_is_space by blast

lemma split_lines_not_Nil: "split_lines s \<noteq> []"
  by (induction s) (auto split: list.splits)

lemma split_lines_Cons:
  "split_lines (c # s) =
     (if c = newline then [] # split_lines s
      else (c # hd (split_lines s)) # tl (split_lines s))"
  using split_lines_not_Nil [of s] by (cases "split_lines s") auto

declare split_lines.simps(2) [simp del]

lemma split_lines_no_newline: "newline \<notin> set l \<Longrightarrow> split_lines l = [l]"
  by (induction l) (auto simp: split_lines_Cons)

lemma split_lines_line: "newline \<notin> set l \<Longrightarrow> split_lines (l @ newline # r) = l # split_lines r"
  by (induction l) (auto simp: split_lines_Cons)

lemma split_lines_two: "newline \<in> set a \<Longrightarrow> tl (split_lines a) \<noteq> []"
  by (induction a) (auto simp: split_lines_Cons split_lines_not_Nil)

lemma split_lines_boundary:
  "a = [] \<or> last a = newline \<Longrightarrow>
     split_lines (a @ b) = butlast (split_lines a) @ split_lines b \<and> last (split_lines a) = []"
proof (induction a)
  case Nil
  then show ?case by simp
next
  case (Cons c a)
  show ?case
  proof (cases "a = []")
    case True
    with Cons.prems show ?thesis by (simp add: split_lines_Cons)
  next
    case False
    with Cons.prems have "last a = newline" by simp
    with Cons.IH have ih: "split_lines (a @ b) = butlast (split_lines a) @ split_lines b"
      "last (split_lines a) = []" by simp_all
    from False \<open>last a = newline\<close> have "newline \<in> set a" by (metis last_in_set)
    then have "tl (split_lines a) \<noteq> []" by (rule split_lines_two)
    then have two: "butlast (split_lines a) \<noteq> []"
      by (cases "split_lines a") auto
    then have hd: "hd (butlast (split_lines a) @ split_lines b) = hd (split_lines a)"
      and tl: "tl (butlast (split_lines a) @ split_lines b)
                = butlast (tl (split_lines a)) @ split_lines b"
      and tl_ne: "tl (split_lines a) \<noteq> []"
      by (cases "split_lines a"; auto)+
    show ?thesis
      using ih hd tl tl_ne two split_lines_not_Nil [of a]
      by (auto simp: split_lines_Cons butlast_tl last_tl)
  qed
qed

lemma prepare_lines_boundary:
  assumes "a = [] \<or> last a = newline"
  shows "prepare_lines (a @ b) ig = prepare_lines a ig @ prepare_lines b ig"
proof -
  from split_lines_boundary [OF assms, of b]
  have s: "split_lines (a @ b) = butlast (split_lines a) @ split_lines b"
    and l: "last (split_lines a) = []" by simp_all
  have e: "strip [] = []" by (simp add: strip_def rstrip_def lstrip_def)
  have "split_lines a = butlast (split_lines a) @ [[]]"
    using l split_lines_not_Nil [of a] by (metis append_butlast_last_id)
  then have "filter (\<lambda>l. strip l \<noteq> [] \<and> strip l \<notin> set ig) (split_lines a)
      = filter (\<lambda>l. strip l \<noteq> [] \<and> strip l \<notin> set ig) (butlast (split_lines a))"
    by (metis (mono_tags, lifting) e filter.simps(1) filter.simps(2) filter_append append_Nil2)
  then show ?thesis unfolding prepare_lines_def s by simp
qed

lemma sub_blank_lines_lines:
  "hd (split_lines (sub_blank_lines s)) = hd (split_lines s)
   \<and> filter (\<lambda>l. strip l \<noteq> [] \<and> strip l \<notin> set ig) (tl (split_lines (sub_blank_lines s)))
     = filter (\<lambda>l. strip l \<noteq> [] \<and> strip l \<notin> set ig) (tl (split_lines s))"
proof (induction s rule: sub_blank_lines.induct)
  case (1 c1 c2 cs)
  have e: "strip [] = []" by (simp add: strip_def rstrip_def lstrip_def)
  have whole: "filter (\<lambda>l. strip l \<noteq> [] \<and> strip l \<notin> set ig) (split_lines (sub_blank_lines t))
      = filter (\<lambda>l. strip l \<noteq> [] \<and> strip l \<notin> set ig) (split_lines t)"
    if "hd (split_lines (sub_blank_lines t)) = hd (split_lines t)
        \<and> filter (\<lambda>l. strip l \<noteq> [] \<and> strip l \<notin> set ig) (tl (split_lines (sub_blank_lines t)))
          = filter (\<lambda>l. strip l \<noteq> [] \<and> strip l \<notin> set ig) (tl (split_lines t))" for t
    using that split_lines_not_Nil [of t] split_lines_not_Nil [of "sub_blank_lines t"]
    by (cases "split_lines t"; cases "split_lines (sub_blank_lines t)") auto
  show ?case
  proof (cases "c1 = newline \<and> c2 = newline")
    case True
    with "1.IH"(1) whole [of cs] e show ?thesis
      by (simp add: split_lines_Cons)
  next
    case False
    with "1.IH"(2) whole [of "c2 # cs"] e show ?thesis
      by (auto simp: split_lines_Cons)
  qed
qed simp_all

lemma prepare_lines_sub_blank_lines:
  "prepare_lines (sub_blank_lines s) ig = prepare_lines s ig"
proof -
  from sub_blank_lines_lines [of s ig]
  have "filter (\<lambda>l. strip l \<noteq> [] \<and> strip l \<notin> set ig) (split_lines (sub_blank_lines s))
      = filter (\<lambda>l. strip l \<noteq> [] \<and> strip l \<notin> set ig) (split_lines s)"
    using split_lines_not_Nil [of s] split_lines_not_Nil [of "sub_blank_lines s"]
    by (cases "split_lines s"; cases "split_lines (sub_blank_lines s)") auto
  then show ?thesis by (simp add: prepare_lines_def)
qed

lemma parse_sub_blank_lines: "parse (sub_blank_lines s) ig = parse s ig"
  by (simp add: parse_def prepare_lines_sub_blank_lines)

lemma find_block_root_blocks: "find_block 0 seg t = map_of (root_blocks t) seg"
  by (induction t) auto

lemma root_blocks_append:
  "ys = [] \<or> cl_parents (hd ys) = [] \<Longrightarrow> root_blocks (xs @ ys) = root_blocks xs @ root_blocks ys"
proof (induction xs)
  case Nil
  then show ?case by simp
next
  case (Cons x xs)
  from Cons.prems have "takeWhile (\<lambda>x. cl_parents x \<noteq> []) ys = []"
    by (cases ys) auto
  then have "takeWhile (\<lambda>x. cl_parents x \<noteq> []) (xs @ ys) = takeWhile (\<lambda>x. cl_parents x \<noteq> []) xs"
    by (induction xs) auto
  with Cons show ?case by simp
qed

lemma parse_stack_root:
  "parse_stack st (xs @ (0, t) # ys) = parse_stack st xs @ parse_stack [] ((0, t) # ys)"
proof (induction xs arbitrary: st)
  case Nil
  have dw: "dropWhile (\<lambda>(d', t'). True) st = []" by (induction st) auto
  show ?case by (simp add: Let_def dw)
next
  case (Cons x xs)
  obtain d u where x: "x = (d, u)" by (cases x)
  show ?case unfolding x
    using Cons.IH by (cases xs) (auto simp: Let_def)
qed

lemma parse_stack_head:
  "parse_stack [] ((0, t) # ys) \<noteq> []
   \<and> cl_parents (hd (parse_stack [] ((0, t) # ys))) = []
   \<and> cl_text (hd (parse_stack [] ((0, t) # ys))) = t"
  by (simp add: Let_def)

lemma section_block_in_tree:
  assumes "P = [] \<or> fst (hd P) = 0"
  shows "\<exists>b. find_block 0 t (parse_stack [] ((0, t) # M)) = Some b
           \<and> (t, b) \<in> set (root_blocks (parse_stack [] (A @ (0, t) # M @ P)))"
proof -
  let ?Q = "parse_stack [] ((0, t) # M)"
  obtain q qs where Q: "?Q = q # qs" and q: "cl_parents q = []" "cl_text q = t"
    using parse_stack_head [of t M] by (cases ?Q) auto
  let ?b = "takeWhile (\<lambda>x. cl_parents x \<noteq> []) qs"
  have fb: "find_block 0 t ?Q = Some ?b"
    unfolding find_block_root_blocks Q using q by simp
  have inQ: "(t, ?b) \<in> set (root_blocks ?Q)"
    unfolding Q using q by simp
  have split1: "parse_stack [] (A @ (0, t) # M @ P)
      = parse_stack [] A @ parse_stack [] ((0, t) # M @ P)"
    by (rule parse_stack_root)
  have tail: "\<exists>R. parse_stack [] ((0, t) # M @ P) = ?Q @ R \<and> (R = [] \<or> cl_parents (hd R) = [])"
  proof (cases P)
    case Nil
    then show ?thesis by auto
  next
    case (Cons p ps)
    with assms obtain u where p: "p = (0, u)" by (cases p) auto
    have "parse_stack [] (((0, t) # M) @ (0, u) # ps) = ?Q @ parse_stack [] ((0, u) # ps)"
      by (rule parse_stack_root)
    moreover have "cl_parents (hd (parse_stack [] ((0, u) # ps))) = []"
      using parse_stack_head by blast
    ultimately show ?thesis unfolding Cons p by auto
  qed
  then obtain R where R: "parse_stack [] ((0, t) # M @ P) = ?Q @ R"
      "R = [] \<or> cl_parents (hd R) = []" by blast
  have "root_blocks (?Q @ R) = root_blocks ?Q @ root_blocks R"
    by (rule root_blocks_append [OF R(2)])
  moreover have "root_blocks (parse_stack [] A @ (?Q @ R))
      = root_blocks (parse_stack [] A) @ root_blocks (?Q @ R)"
    by (rule root_blocks_append) (use Q q in simp)
  ultimately have "root_blocks (parse_stack [] (A @ (0, t) # M @ P))
      = root_blocks (parse_stack [] A) @ root_blocks ?Q @ root_blocks R"
    by (simp only: split1 R(1))
  then have "(t, ?b) \<in> set (root_blocks (parse_stack [] (A @ (0, t) # M @ P)))"
    using inQ by (simp only: set_append Un_iff simp_thms)
  with fb show ?thesis by blast
qed

lemma rest_of_line_split:
  "rest_of_line s = (l, r) \<Longrightarrow>
     s = l @ r \<and> ((\<exists>l'. l = l' @ [newline] \<and> newline \<notin> set l') \<or> (newline \<notin> set l \<and> r = []))"
proof (induction s arbitrary: l r)
  case Nil
  then show ?case by simp
next
  case (Cons c s)
  show ?case
  proof (cases "c = newline")
    case True
    with Cons.prems show ?thesis by auto
  next
    case False
    obtain l0 r0 where lr: "rest_of_line s = (l0, r0)" by (cases "rest_of_line s")
    with Cons.prems False have l: "l = c # l0" and r: "r = r0" by auto
    from Cons.IH [OF lr] have s: "s = l0 @ r0"
      and alt: "(\<exists>l'. l0 = l' @ [newline] \<and> newline \<notin> set l') \<or> (newline \<notin> set l0 \<and> r0 = [])"
      by simp_all
    from alt show ?thesis
    proof
      assume "\<exists>l'. l0 = l' @ [newline] \<and> newline \<notin> set l'"
      then obtain l' where "l0 = l' @ [newline]" "newline \<notin> set l'" by blast
      with False have "c # l0 = (c # l') @ [newline] \<and> newline \<notin> set (c # l')" by simp
      then have "\<exists>l'. c # l0 = l' @ [newline] \<and> newline \<notin> set l'" by blast
      then show ?thesis unfolding l r using s by simp
    next
      assume "newline \<notin> set l0 \<and> r0 = []"
      with False show ?thesis unfolding l r using s by simp
    qed
  qed
qed

lemma child_group_split:
  "child_group st s = (g, r) \<Longrightarrow>
     s = g @ r \<and> (r \<noteq> [] \<longrightarrow> \<not> is_space (hd r) \<and> (g \<noteq> [] \<longrightarrow> last g = newline)
                               \<and> (g = [] \<longrightarrow> st = Start))"
proof (induction st s arbitrary: g r rule: child_group.induct)
  case (1 st)
  then show ?case by simp
next
  case (2 c cs)
  show ?case
  proof (cases "is_space c")
    case True
    obtain g0 r0 where gr: "child_group Ws cs = (g0, r0)" by (cases "child_group Ws cs")
    with "2.prems" True have g: "g = c # g0" and r: "r = r0" by auto
    from "2.IH" [OF True gr] show ?thesis unfolding g r by auto
  next
    case False
    with "2.prems" show ?thesis by auto
  qed
next
  case (3 c cs)
  show ?case
  proof (cases "is_space c")
    case True
    obtain g0 r0 where gr: "child_group Ws cs = (g0, r0)" by (cases "child_group Ws cs")
    with "3.prems" True have g: "g = c # g0" and r: "r = r0" by auto
    from "3.IH"(1) [OF True gr] show ?thesis unfolding g r by auto
  next
    case False
    obtain g0 r0 where gr: "child_group Line cs = (g0, r0)" by (cases "child_group Line cs")
    with "3.prems" False have g: "g = c # g0" and r: "r = r0" by auto
    from "3.IH"(2) [OF False gr] show ?thesis unfolding g r by auto
  qed
next
  case (4 c cs)
  show ?case
  proof (cases "c = newline")
    case True
    obtain g0 r0 where gr: "child_group Start cs = (g0, r0)" by (cases "child_group Start cs")
    with "4.prems" True have g: "g = c # g0" and r: "r = r0" by auto
    from "4.IH"(1) [OF True gr] True show ?thesis unfolding g r by auto
  next
    case False
    obtain g0 r0 where gr: "child_group Line cs = (g0, r0)" by (cases "child_group Line cs")
    with "4.prems" False have g: "g = c # g0" and r: "r = r0" by auto
    from "4.IH"(2) [OF False gr] show ?thesis unfolding g r by auto
  qed
qed

lemma section_end:
  assumes "rest_of_line cs = (l, r)" and "child_group Start r = (g, r')" and "r' \<noteq> []"
  shows "last ((c # l) @ g) = newline \<and> \<not> is_space (hd r')"
proof -
  from child_group_split [OF assms(2)] assms(3)
  have r: "r = g @ r'" and sp: "\<not> is_space (hd r')" and g: "g \<noteq> [] \<longrightarrow> last g = newline"
    by simp_all
  show ?thesis
  proof (cases "g = []")
    case True
    with r assms(3) have "r \<noteq> []" by simp
    with rest_of_line_split [OF assms(1)] obtain l' where "l = l' @ [newline]" by auto
    with True sp show ?thesis by simp
  next
    case False
    with g sp show ?thesis by simp
  qed
qed

lemma findall_sections_split:
  "(p, c) \<in> set (findall_sections bol s) \<Longrightarrow>
     \<exists>a post. s = a @ p @ c @ post \<and> (a = [] \<longrightarrow> bol) \<and> section_at a p c post"
proof (induction bol s rule: findall_sections.induct)
  case (1 bol)
  then show ?case by simp
next
  case (2 bol x xs)
  show ?case
  proof (cases "bol \<and> is_word x")
    case True
    obtain l r where lr: "rest_of_line xs = (l, r)" by (cases "rest_of_line xs")
    obtain g r' where gr: "child_group Start r = (g, r')" by (cases "child_group Start r")
    from rest_of_line_split [OF lr] have xs: "xs = l @ r"
      and alt: "(\<exists>l'. l = l' @ [newline] \<and> newline \<notin> set l') \<or> (newline \<notin> set l \<and> r = [])"
      by simp_all
    from child_group_split [OF gr] have r: "r = g @ r'" by simp
    have whole: "x # xs = (x # l) @ g @ r'" using xs r by simp
    from True have xn: "x \<noteq> newline" using word_not_newline by blast
    from "2.prems" True lr gr
    have mem: "(p, c) = (x # l, g) \<or> (p, c) \<in> set (findall_sections True r')" by simp
    from mem show ?thesis
    proof
      assume "(p, c) = (x # l, g)"
      then have p: "p = x # l" and c: "c = g" by simp_all
      have shape: "(\<exists>l'. p = l' @ [newline] \<and> newline \<notin> set l')
          \<or> (newline \<notin> set p \<and> c = [] \<and> r' = [])"
        using alt
      proof
        assume "\<exists>l'. l = l' @ [newline] \<and> newline \<notin> set l'"
        then obtain l' where "l = l' @ [newline]" "newline \<notin> set l'" by blast
        with xn have "p = (x # l') @ [newline] \<and> newline \<notin> set (x # l')" unfolding p by simp
        then show ?thesis by blast
      next
        assume "newline \<notin> set l \<and> r = []"
        with gr xn show ?thesis unfolding p c by auto
      qed
      have "section_at [] p c r'"
        unfolding section_at_def using shape True section_end [OF lr gr, of x] p c by auto
      with whole True show ?thesis unfolding p c by (intro exI [of _ "[]"] exI [of _ r']) simp
    next
      assume m: "(p, c) \<in> set (findall_sections True r')"
      from "2.IH"(1) [OF True lr [symmetric] gr [symmetric] m]
      obtain a post where r': "r' = a @ p @ c @ post" and sa: "section_at a p c post" by blast
      from sa have "p \<noteq> []" by (simp add: section_at_def)
      with r' have "r' \<noteq> []" by simp
      from section_end [OF lr gr this, of x] have e: "last ((x # l) @ g) = newline" by simp
      have "last ((x # l) @ g @ a) = newline"
      proof (cases "a = []")
        case True
        with e show ?thesis by simp
      next
        case False
        with sa show ?thesis by (simp add: section_at_def)
      qed
      with sa have "section_at ((x # l) @ g @ a) p c post"
        by (simp add: section_at_def)
      moreover have "x # xs = ((x # l) @ g @ a) @ p @ c @ post" using whole r' by simp
      ultimately show ?thesis by (intro exI [of _ "(x # l) @ g @ a"] exI [of _ post]) simp
    qed
  next
    case False
    with "2.prems" have m: "(p, c) \<in> set (findall_sections (x = newline) xs)" by auto
    from "2.IH"(2) [OF False m]
    obtain a post where xs: "xs = a @ p @ c @ post" and b: "a = [] \<longrightarrow> x = newline"
      and sa: "section_at a p c post" by blast
    have "last (x # a) = newline"
    proof (cases "a = []")
      case True
      with b show ?thesis by simp
    next
      case False
      with sa show ?thesis by (simp add: section_at_def)
    qed
    with sa have "section_at (x # a) p c post" by (simp add: section_at_def)
    moreover have "x # xs = (x # a) @ p @ c @ post" using xs by simp
    ultimately show ?thesis by (intro exI [of _ "x # a"] exI [of _ post]) simp
  qed
qed

lemma strip_Nil: "strip [] = []"
  by (simp add: strip_def rstrip_def lstrip_def)

lemma prepare_lines_Nil: "prepare_lines [] ig = []"
  by (simp add: prepare_lines_def strip_Nil)

lemma strip_nonspace_line:
  assumes "l \<noteq> []" and "\<not> is_space (hd l)"
  shows "strip l \<noteq> [] \<and> takeWhile is_space l = [] \<and> strip (l @ [newline]) = strip l"
proof -
  from assms obtain x xs where l: "l = x # xs" and x: "\<not> is_space x" by (cases l) auto
  have ls: "lstrip l = l" "lstrip (l @ [newline]) = l @ [newline]"
    unfolding l lstrip_def using x by simp_all
  have "\<exists>y \<in> set (rev l). \<not> is_space y" unfolding l using x by auto
  then have "dropWhile is_space (rev l) \<noteq> []"
    by simp
  then have "rstrip l \<noteq> []" by (simp add: rstrip_def)
  moreover have "rstrip (l @ [newline]) = rstrip l"
    by (simp add: rstrip_def newline_is_space)
  moreover have "takeWhile is_space l = []" unfolding l using x by simp
  ultimately show ?thesis unfolding strip_def ls by simp
qed

lemma prepare_lines_first:
  assumes "l \<noteq> []" and "\<not> is_space (hd l)" and "newline \<notin> set l"
  shows "prepare_lines (l @ newline # rest) [] = (0, strip l) # prepare_lines rest []"
    and "prepare_lines l [] = [(0, strip l)]"
  using strip_nonspace_line [OF assms(1,2)] assms(3)
  by (simp_all add: prepare_lines_def split_lines_line split_lines_no_newline)

lemma prepare_lines_section:
  assumes "section_at a p c post"
  shows "\<exists>M. prepare_lines (p @ c) [] = (0, strip p) # M"
proof -
  from assms have pne: "p \<noteq> []" and w: "is_word (hd p)"
    and shape: "(\<exists>l'. p = l' @ [newline] \<and> newline \<notin> set l')
          \<or> (newline \<notin> set p \<and> c = [] \<and> post = [])"
    by (simp_all add: section_at_def)
  from w have ns: "\<not> is_space (hd p)" by (rule word_not_space)
  from shape show ?thesis
  proof
    assume "\<exists>l'. p = l' @ [newline] \<and> newline \<notin> set l'"
    then obtain l' where p: "p = l' @ [newline]" and nl: "newline \<notin> set l'" by blast
    have "l' \<noteq> []"
    proof
      assume "l' = []"
      with p w have "is_word newline" by simp
      then show False using word_not_newline by blast
    qed
    then have hd: "hd l' = hd p" unfolding p by simp
    with ns have ns': "\<not> is_space (hd l')" by simp
    have "strip p = strip l'"
      unfolding p using strip_nonspace_line [OF \<open>l' \<noteq> []\<close> ns'] by simp
    moreover have "prepare_lines (p @ c) [] = (0, strip l') # prepare_lines c []"
      unfolding p using prepare_lines_first(1) [OF \<open>l' \<noteq> []\<close> ns' nl, of c] by simp
    ultimately show ?thesis by simp
  next
    assume "newline \<notin> set p \<and> c = [] \<and> post = []"
    then show ?thesis using prepare_lines_first(2) [OF pne ns] by simp
  qed
qed

lemma prepare_lines_post:
  assumes "post \<noteq> []" and "\<not> is_space (hd post)"
  shows "\<exists>u P. prepare_lines post [] = (0, u) # P"
proof -
  from assms obtain x xs where post: "post = x # xs" and x: "\<not> is_space x" by (cases post) auto
  from x have xn: "x \<noteq> newline" using newline_is_space by auto
  let ?l = "x # hd (split_lines xs)"
  have sl: "split_lines post = ?l # tl (split_lines xs)"
    unfolding post using xn by (simp add: split_lines_Cons)
  have "strip ?l \<noteq> [] \<and> takeWhile is_space ?l = []"
    using strip_nonspace_line [of ?l] x by simp
  then show ?thesis unfolding prepare_lines_def sl by simp
qed

lemma section_block_in_parse:
  assumes "(p, c) \<in> set (findall_sections True s)"
  shows "\<exists>b. find_block 0 (strip p) (parse (p @ c) []) = Some b
           \<and> (strip p, b) \<in> set (root_blocks (parse s []))"
proof -
  from findall_sections_split [OF assms]
  obtain a post where s: "s = a @ p @ c @ post" and sa: "section_at a p c post" by blast
  from sa have a: "a = [] \<or> last a = newline" by (auto simp: section_at_def)
  from prepare_lines_section [OF sa] obtain M where
    M: "prepare_lines (p @ c) [] = (0, strip p) # M" by blast
  let ?A = "prepare_lines a []" and ?P = "prepare_lines post []"
  have tail: "prepare_lines ((p @ c) @ post) [] = prepare_lines (p @ c) [] @ ?P"
  proof (cases "post = []")
    case True
    then show ?thesis by (simp add: prepare_lines_Nil)
  next
    case False
    with sa have "last (p @ c) = newline" by (simp add: section_at_def)
    then show ?thesis by (intro prepare_lines_boundary) simp
  qed
  have "prepare_lines s [] = ?A @ prepare_lines ((p @ c) @ post) []"
    unfolding s using prepare_lines_boundary [OF a, of "(p @ c) @ post" "[]"] by simp
  then have whole: "prepare_lines s [] = ?A @ (0, strip p) # M @ ?P"
    unfolding tail M by simp
  have P: "?P = [] \<or> fst (hd ?P) = 0"
  proof (cases "post = []")
    case True
    then show ?thesis by (simp add: prepare_lines_Nil)
  next
    case False
    with sa have "\<not> is_space (hd post)" by (simp add: section_at_def)
    from prepare_lines_post [OF False this] show ?thesis by auto
  qed
  from section_block_in_tree [OF P, of "strip p" M ?A]
  show ?thesis unfolding parse_def whole M .
qed

lemma same_line_refl: "same_line True l l"
  by (simp add: same_line_def)

lemma spec_blocks_agree:
  assumes "repeated_roots_agree X"
    and "s \<in> set (findall_cand_pattern (sub_blank_lines X))"
  shows "blocks_agree spec_network_config (Some X) None s"
proof -
  obtain p c where s: "s = (p, c)" by (cases s)
  from assms(2) have "(p, c) \<in> set (findall_sections True (sub_blank_lines X))"
    unfolding s findall_cand_pattern_def .
  from section_block_in_parse [OF this] obtain b where
    want: "find_block 0 (strip p) (parse (p @ c) []) = Some b"
    and inX: "(strip p, b) \<in> set (root_blocks (parse X []))"
    unfolding parse_sub_blank_lines by blast
  from inX obtain b' where m: "map_of (root_blocks (parse X [])) (strip p) = Some b'"
    by (metis weak_map_of_SomeI)
  then have "(strip p, b') \<in> set (root_blocks (parse X []))" by (rule map_of_SomeD)
  with inX assms(1) have "b' = b"
    unfolding repeated_roots_agree_def Let_def list_all_iff by fastforce
  with m have have_: "find_block 0 (strip p) (parse X []) = Some b"
    unfolding find_block_root_blocks by simp
  have hb: "have_block spec_network_config (Some X) None s = Inr b"
    unfolding have_block_def s using have_
    by (simp add: spec_network_config_def get_block_def)
  have wb: "want_block spec_network_config s = Inr b"
    unfolding want_block_def s using want
    by (simp add: spec_network_config_def get_block_def)
  have "list_all (\<lambda>l. line_in spec_network_config l b) b"
    unfolding list_all_iff line_in_def list_ex_iff
    using same_line_refl by (auto simp: spec_network_config_def)
  then show ?thesis unfolding blocks_agree_def hb wb by simp
qed

lemma no_sections_no_word_start:
  "findall_sections bol s = [] \<Longrightarrow> \<not> has_word_start bol s"
proof (induction s arbitrary: bol)
  case Nil
  then show ?case by simp
next
  case (Cons c cs)
  from Cons.prems have no: "\<not> (bol \<and> is_word c)"
    by (auto split: prod.splits)
  with Cons.prems have "findall_sections (c = newline) cs = []" by simp
  from Cons.IH [OF this] no show ?case by simp
qed

lemma word_start_sub_blank_lines:
  "has_word_start bol s \<Longrightarrow> has_word_start bol (sub_blank_lines s)"
proof (induction s arbitrary: bol rule: sub_blank_lines.induct)
  case (1 c1 c2 cs)
  have nw: "\<not> is_word newline" using word_not_newline by blast
  show ?case
  proof (cases "c1 = newline \<and> c2 = newline")
    case True
    with "1.prems" nw have "has_word_start True cs" by simp
    from "1.IH"(1) [OF True this] True show ?thesis by simp
  next
    case False
    then have sub: "sub_blank_lines (c1 # c2 # cs) = c1 # sub_blank_lines (c2 # cs)" by auto
    from "1.prems" have "(bol \<and> is_word c1) \<or> has_word_start (c1 = newline) (c2 # cs)" by simp
    then show ?thesis
    proof
      assume "bol \<and> is_word c1"
      then show ?thesis unfolding sub by simp
    next
      assume "has_word_start (c1 = newline) (c2 # cs)"
      from "1.IH"(2) [OF False this] show ?thesis unfolding sub by simp
    qed
  qed
qed simp_all

lemma banner_prefix_word: "prefix ''banner '' (c # cs) \<Longrightarrow> is_word c"
  by (auto simp: is_word_def)

lemma no_word_start_no_banner:
  "\<not> has_word_start bol s \<Longrightarrow> banner_names bol s = []"
proof (induction s arbitrary: bol)
  case Nil
  then show ?case by simp
next
  case (Cons c cs)
  from Cons.prems have a: "\<not> (bol \<and> is_word c)" and b: "\<not> has_word_start (c = newline) cs"
    by simp_all
  from a have "\<not> (bol \<and> prefix ''banner '' (c # cs)
      \<and> takeWhile is_word (drop 7 (c # cs)) \<noteq> [])"
    using banner_prefix_word [of c cs] by blast
  then show ?case using Cons.IH [OF b]
    by (simp only: banner_names.simps if_False)
qed

lemma no_sections_no_banners:
  assumes "findall_cand_pattern (sub_blank_lines X) = []"
  shows "findall_banner_cmds (sub_blank_lines X) = []" and "findall_banner_cmds X = []"
proof -
  from assms have n: "\<not> has_word_start True (sub_blank_lines X)"
    unfolding findall_cand_pattern_def by (rule no_sections_no_word_start)
  then show "findall_banner_cmds (sub_blank_lines X) = []"
    unfolding findall_banner_cmds_def by (rule no_word_start_no_banner)
  from n have "\<not> has_word_start True X" using word_start_sub_blank_lines by blast
  then show "findall_banner_cmds X = []"
    unfolding findall_banner_cmds_def by (rule no_word_start_no_banner)
qed

lemma sub_blank_lines_no_newline:
  "newline \<notin> set m \<Longrightarrow> sub_blank_lines (m @ r) = m @ sub_blank_lines r"
proof (induction m)
  case Nil
  then show ?case by simp
next
  case (Cons x m)
  then show ?case by (cases "m @ r") auto
qed

lemma sub_blank_lines_prefix:
  "sub_blank_lines s = m @ r' \<Longrightarrow> newline \<notin> set m \<Longrightarrow> \<exists>r. s = m @ r"
proof (induction s arbitrary: m r' rule: sub_blank_lines.induct)
  case (1 c1 c2 cs)
  show ?case
  proof (cases m)
    case Nil
    then show ?thesis by simp
  next
    case (Cons x m')
    show ?thesis
    proof (cases "c1 = newline \<and> c2 = newline")
      case True
      with "1.prems" Cons show ?thesis by auto
    next
      case False
      with "1.prems" Cons have x: "x = c1" and rest: "sub_blank_lines (c2 # cs) = m' @ r'"
        and nl: "newline \<notin> set m'" by auto
      from "1.IH"(2) [OF False rest nl] obtain r where "c2 # cs = m' @ r" by blast
      then show ?thesis unfolding Cons x by simp
    qed
  qed
qed (auto simp: Cons_eq_append_conv)

lemma dropWhile_word_name:
  assumes "list_all is_word name"
  shows "dropWhile is_word (name @ CHR '' '' # rest) = CHR '' '' # rest"
proof -
  have "\<not> is_word CHR '' ''" by (simp add: is_word_def)
  with assms show ?thesis by (simp add: list_all_iff dropWhile_append)
qed

lemma banner_match_decl:
  assumes "name \<noteq> []" and "list_all is_word name"
  shows "banner_match (''banner '' @ name @ '' ^C^C'' @ rest)"
    and "drop 5 (dropWhile is_word (drop 7 (''banner '' @ name @ '' ^C^C'' @ rest))) = rest"
proof -
  have d: "drop 7 (''banner '' @ name @ '' ^C^C'' @ rest) = name @ CHR '' '' # ''^C^C'' @ rest"
    by simp
  have t: "takeWhile is_word (name @ CHR '' '' # ''^C^C'' @ rest) = name"
    by (rule takeWhile_word_name [OF assms(2)])
  have w: "dropWhile is_word (name @ CHR '' '' # ''^C^C'' @ rest) = CHR '' '' # ''^C^C'' @ rest"
    by (rule dropWhile_word_name [OF assms(2)])
  have p: "prefix ''banner '' (''banner '' @ name @ '' ^C^C'' @ rest)" by simp
  show "banner_match (''banner '' @ name @ '' ^C^C'' @ rest)"
    unfolding banner_match_def d t w using p assms(1) by simp
  show "drop 5 (dropWhile is_word (drop 7 (''banner '' @ name @ '' ^C^C'' @ rest))) = rest"
    unfolding d w by simp
qed

lemma banner_match_split:
  assumes "banner_match s"
  shows "\<exists>name rest. s = ''banner '' @ name @ '' ^C^C'' @ rest \<and> name \<noteq> []
           \<and> list_all is_word name"
proof -
  have p: "prefix ''banner '' s" and n: "takeWhile is_word (drop 7 s) \<noteq> []"
    and q: "prefix '' ^C^C'' (dropWhile is_word (drop 7 s))"
    using assms unfolding banner_match_def by simp_all
  let ?name = "takeWhile is_word (drop 7 s)"
  let ?rest = "dropWhile is_word (drop 7 s)"
  from p have s: "s = ''banner '' @ drop 7 s" by (auto simp: prefix_def)
  from q have r: "?rest = '' ^C^C'' @ drop 5 ?rest" by (auto simp: prefix_def)
  have "drop 7 s = ?name @ ?rest" by simp
  with s r have "s = ''banner '' @ ?name @ '' ^C^C'' @ drop 5 ?rest"
    by metis
  moreover have "list_all is_word ?name"
    by (simp add: list_all_iff) (meson set_takeWhileD)
  ultimately show ?thesis using n by blast
qed

lemma sub_banner_removed_step:
  "sub_banner_removed (c # cs) =
     (if banner_match (c # cs)
      then ''!! banner removed''
           @ sub_banner_removed (drop 5 (dropWhile is_word (drop 7 (c # cs))))
      else c # sub_banner_removed cs)"
  by (simp only: sub_banner_removed.simps Let_def banner_match_def)

lemma sub_banner_removed_hit:
  assumes "name \<noteq> []" and "list_all is_word name"
  shows "sub_banner_removed (''banner '' @ name @ '' ^C^C'' @ rest)
           = ''!! banner removed'' @ sub_banner_removed rest"
proof -
  let ?s = "''banner '' @ name @ '' ^C^C'' @ rest"
  obtain c cs where s: "?s = c # cs" by simp
  have "sub_banner_removed (c # cs)
      = ''!! banner removed'' @ sub_banner_removed (drop 5 (dropWhile is_word (drop 7 (c # cs))))"
    using banner_match_decl(1) [OF assms, of rest]
    unfolding s by (simp only: sub_banner_removed_step if_True)
  then show ?thesis
    unfolding s [symmetric] banner_match_decl(2) [OF assms] .
qed

lemma sub_banner_removed_miss:
  "\<not> banner_match (c # cs) \<Longrightarrow> sub_banner_removed (c # cs) = c # sub_banner_removed cs"
  by (simp only: sub_banner_removed_step if_False)

lemma banner_decl_no_newline:
  assumes "list_all is_word name"
  shows "newline \<notin> set (''banner '' @ name @ '' ^C^C'')"
proof -
  have "newline \<notin> set name"
    using assms word_not_newline by (auto simp: list_all_iff)
  then show ?thesis by (simp add: newline_def)
qed

lemma banner_match_newline: "\<not> banner_match (newline # cs)"
  by (simp add: banner_match_def newline_def)

lemma banner_match_sub_blank_lines:
  assumes "banner_match (c # sub_blank_lines cs)"
  shows "banner_match (c # cs)"
proof -
  from banner_match_split [OF assms] obtain name rest where
    e: "c # sub_blank_lines cs = ''banner '' @ name @ '' ^C^C'' @ rest"
    and n: "name \<noteq> []" "list_all is_word name" by blast
  let ?m = "''anner '' @ name @ '' ^C^C''"
  from e have c: "c = CHR ''b''" and sub: "sub_blank_lines cs = ?m @ rest" by simp_all
  have "newline \<notin> set ?m"
    using banner_decl_no_newline [OF n(2)] by simp
  from sub_blank_lines_prefix [OF sub this] obtain r where "cs = ?m @ r" by blast
  then have "c # cs = ''banner '' @ name @ '' ^C^C'' @ r" unfolding c by simp
  then show ?thesis using banner_match_decl(1) [OF n, of r] by simp
qed

lemma sub_banner_removed_hd:
  assumes "cs \<noteq> []" and "hd cs \<noteq> newline"
  shows "sub_banner_removed cs \<noteq> [] \<and> hd (sub_banner_removed cs) \<noteq> newline"
proof -
  from assms obtain d ds where cs: "cs = d # ds" and d: "d \<noteq> newline" by (cases cs) auto
  show ?thesis unfolding cs sub_banner_removed_step using d by (simp add: newline_def)
qed

lemma sub_blank_lines_single:
  assumes "\<not> (c = newline \<and> cs \<noteq> [] \<and> hd cs = newline)"
  shows "sub_blank_lines (c # cs) = c # sub_blank_lines cs"
  using assms by (cases cs) auto

lemma sub_banner_removed_commute:
  "sub_banner_removed (sub_blank_lines s) = sub_blank_lines (sub_banner_removed s)"
proof (induction "length s" arbitrary: s rule: less_induct)
  case less
  show ?case
  proof (cases s)
    case Nil
    then show ?thesis by simp
  next
    case (Cons c cs)
    show ?thesis
    proof (cases "banner_match s")
      case True
      from banner_match_split [OF True] obtain name rest where
        s: "s = ''banner '' @ name @ '' ^C^C'' @ rest" and n: "name \<noteq> []" "list_all is_word name"
        by blast
      let ?m = "''banner '' @ name @ '' ^C^C''"
      have nl: "newline \<notin> set ?m" by (rule banner_decl_no_newline [OF n(2)])
      have s': "s = ?m @ rest" unfolding s by simp
      have "length rest < length s" unfolding s by simp
      from less [OF this] have ih: "sub_banner_removed (sub_blank_lines rest)
          = sub_blank_lines (sub_banner_removed rest)" .
      have "sub_blank_lines s = ?m @ sub_blank_lines rest"
        unfolding s' by (rule sub_blank_lines_no_newline [OF nl])
      then have "sub_blank_lines s = ''banner '' @ name @ '' ^C^C'' @ sub_blank_lines rest"
        by simp
      then have l: "sub_banner_removed (sub_blank_lines s)
          = ''!! banner removed'' @ sub_banner_removed (sub_blank_lines rest)"
        using sub_banner_removed_hit [OF n, of "sub_blank_lines rest"] by simp
      have "sub_banner_removed s = ''!! banner removed'' @ sub_banner_removed rest"
        unfolding s by (rule sub_banner_removed_hit [OF n])
      moreover have "newline \<notin> set ''!! banner removed''" by (simp add: newline_def)
      ultimately have r: "sub_blank_lines (sub_banner_removed s)
          = ''!! banner removed'' @ sub_blank_lines (sub_banner_removed rest)"
        using sub_blank_lines_no_newline [of "''!! banner removed''" "sub_banner_removed rest"]
        by simp
      show ?thesis unfolding l r ih ..
    next
      case False
      then have miss: "sub_banner_removed s = c # sub_banner_removed cs"
        unfolding Cons by (rule sub_banner_removed_miss)
      show ?thesis
      proof (cases "c = newline \<and> cs \<noteq> [] \<and> hd cs = newline")
        case True
        then obtain cs' where cs: "cs = newline # cs'" and c: "c = newline" by (cases cs) auto
        have "length cs' < length s" unfolding Cons cs by simp
        from less [OF this] have ih: "sub_banner_removed (sub_blank_lines cs')
            = sub_blank_lines (sub_banner_removed cs')" .
        have m1: "sub_banner_removed (newline # t) = newline # sub_banner_removed t" for t
          by (rule sub_banner_removed_miss [OF banner_match_newline])
        have "sub_blank_lines s = newline # sub_blank_lines cs'" unfolding Cons cs c by simp
        then have l: "sub_banner_removed (sub_blank_lines s)
            = newline # sub_banner_removed (sub_blank_lines cs')"
          by (simp only: m1)
        have "sub_banner_removed s = newline # newline # sub_banner_removed cs'"
          unfolding Cons cs c by (simp only: m1)
        then have r: "sub_blank_lines (sub_banner_removed s)
            = newline # sub_blank_lines (sub_banner_removed cs')" by simp
        show ?thesis unfolding l r ih ..
      next
        case single: False
        have "length cs < length s" unfolding Cons by simp
        from less [OF this] have ih: "sub_banner_removed (sub_blank_lines cs)
            = sub_blank_lines (sub_banner_removed cs)" .
        have sub: "sub_blank_lines s = c # sub_blank_lines cs"
          unfolding Cons by (rule sub_blank_lines_single [OF single])
        have "\<not> banner_match (c # sub_blank_lines cs)"
          using banner_match_sub_blank_lines False unfolding Cons by blast
        then have l: "sub_banner_removed (sub_blank_lines s)
            = c # sub_banner_removed (sub_blank_lines cs)"
          unfolding sub by (rule sub_banner_removed_miss)
        have "\<not> (c = newline \<and> sub_banner_removed cs \<noteq> [] \<and> hd (sub_banner_removed cs) = newline)"
        proof (cases "c = newline")
          case True
          with single have "cs = [] \<or> hd cs \<noteq> newline" by blast
          then show ?thesis
          proof
            assume "cs = []"
            then show ?thesis by simp
          next
            assume h: "hd cs \<noteq> newline"
            show ?thesis
            proof (cases "cs = []")
              case True
              then show ?thesis by simp
            next
              case False
              from sub_banner_removed_hd [OF False h] show ?thesis by simp
            qed
          qed
        next
          case False
          then show ?thesis by simp
        qed
        then have r: "sub_blank_lines (sub_banner_removed s)
            = c # sub_blank_lines (sub_banner_removed cs)"
          unfolding miss by (rule sub_blank_lines_single)
        show ?thesis unfolding l r ih ..
      qed
    qed
  qed
qed

lemma same_line_self: "same_line b l l"
  by (simp add: same_line_def)

lemma difference_self: "difference t t None diff_match diff_replace = Inr []"
proof -
  have "list_ex (same_line (diff_match \<noteq> ''line'') l) t" if "l \<in> set t" for l
    using that same_line_self by (auto simp: list_ex_iff)
  then show ?thesis
    by (auto simp: difference_def restrict_tree_def Let_def filter_empty_conv)
qed

lemma parse_Nil: "parse [] ig = []"
  by (simp add: parse_def prepare_lines_Nil)

lemma get_diff_exact_no_section:
  assumes "findall_cand_pattern (sub_blank_lines X) = []"
  shows "get_diff spec_network_config (Some X) (Some X) ''exact'' None None ''line''
           = Inr \<lparr>config_diff = [], banner_diff = []\<rparr>"
proof -
  have m: "''exact'' \<in> set (values_diff_match get_option_values)"
    by (simp add: get_option_values_def)
  have r: "''line'' \<in> set (values_diff_replace get_option_values)"
    by (simp add: get_option_values_def)
  have eS: "extract_banners (sub_blank_lines X) = (sub_banner_removed (sub_blank_lines X), [])"
    by (simp add: extract_banners_def Let_def no_sections_no_banners(1) [OF assms])
  have eX: "extract_banners X = (sub_banner_removed X, [])"
    by (simp add: extract_banners_def Let_def no_sections_no_banners(2) [OF assms])
  have tree: "parse (sub_banner_removed (sub_blank_lines X)) [] = parse (sub_banner_removed X) []"
    by (simp add: sub_banner_removed_commute parse_sub_blank_lines)
  have load: "nc_load spec_network_config (Some c) None = Inr (parse c [])" for c
    by (simp add: spec_network_config_def)
  have items: "nc_items spec_network_config t = t" for t
    by (simp add: spec_network_config_def)
  have diff: "nc_difference spec_network_config t t None ''exact'' ''line'' = Inr []" for t
    by (simp add: spec_network_config_def difference_self)
  have db: "diff_banners [] [] = []" by (simp add: diff_banners_def)
  show ?thesis
  proof (cases "X = []")
    case True
    have e: "extract_banners [] = ([], [])"
      by (simp add: extract_banners_def findall_banner_cmds_def)
    show ?thesis
      unfolding get_diff_def Let_def using assms m r True
      by (simp add: e load items db parse_Nil)
  next
    case False
    then show ?thesis
      unfolding get_diff_def Let_def using assms m r
      by (simp add: eS eX load tree diff db)
  qed
qed

text \<open>
  C3 (as amended). On the configuration tree of the specification, for every text \<open>X\<close> in
  which any two lines without a parent that have the same text have the same block of
  descendants, \<^verbatim>\<open>get_diff\<close> with \<open>X\<close> as candidate and as running configuration and the
  exact match returns an empty \<^verbatim>\<open>config_diff\<close> and an empty \<^verbatim>\<open>banner_diff\<close>. Texts without
  any top-level section are included.
\<close>

theorem get_diff_exact_idempotent:
  assumes "repeated_roots_agree X"
  shows "get_diff spec_network_config (Some X) (Some X) ''exact'' None None ''line''
           = Inr \<lparr>config_diff = [], banner_diff = []\<rparr>"
proof (cases "findall_cand_pattern (sub_blank_lines X) = []")
  case True
  then show ?thesis by (rule get_diff_exact_no_section)
next
  case False
  have "list_all (blocks_agree spec_network_config (Some X) None)
          (findall_cand_pattern (sub_blank_lines X))"
    unfolding list_all_iff using spec_blocks_agree [OF assms] by blast
  from get_diff_exact_agree [OF False this] show ?thesis by simp
qed

theorem get_diff_exact_idempotent_witness:
  "get_diff spec_network_config
       (Some ''interface a\<newline> x\<newline>\<newline>interface a\<newline> x\<newline>policy-map foo\<newline> class c1\<newline>  bandwidth 100'')
       (Some ''interface a\<newline> x\<newline>\<newline>interface a\<newline> x\<newline>policy-map foo\<newline> class c1\<newline>  bandwidth 100'')
       ''exact'' None None ''line''
     = Inr \<lparr>config_diff = [], banner_diff = []\<rparr>"
proof -
  have "repeated_roots_agree
          ''interface a\<newline> x\<newline>\<newline>interface a\<newline> x\<newline>policy-map foo\<newline> class c1\<newline>  bandwidth 100''"
    by code_simp
  from get_diff_exact_idempotent [OF this] show ?thesis .
qed

text \<open>
  C3 as stated fails when \<open>X\<close> repeats a top-level line with different children: the
  second section is compared with the block of the first occurrence in the running
  configuration, and the diff is not empty. It fails in the same way when an indented
  first line, which has no parent either, has the text of a later top-level line.
\<close>

theorem get_diff_exact_repeated_section_counterexample:
  "map_sum id (\<lambda>d. config_diff d = [])
     (get_diff spec_network_config (Some ''interface a\<newline> x\<newline>interface a\<newline> y'')
        (Some ''interface a\<newline> x\<newline>interface a\<newline> y'') ''exact'' None None ''line'')
     = Inr False
   \<and> map_sum id (\<lambda>d. config_diff d = [])
     (get_diff spec_network_config (Some '' foo\<newline>foo\<newline> x'')
        (Some '' foo\<newline>foo\<newline> x'') ''exact'' None None ''line'')
     = Inr False"
  by code_simp

end
